theory Spec2Isabelle
  imports Main "HOL-Library.Multiset" "HOL-Library.Char_ord" "HOL-Library.List_Lexorder"
begin

section \<open>Data model\<close>

text \<open>
  The hook \<^verbatim>\<open>useBackgroundQuery\<close> (src/react/hooks/useBackgroundQuery.ts) is translated
  from its source.  Objects with identity (query references, promise wrappers, promises)
  live in explicit stores: an object's identity is its address, and a fresh object gets
  the next free address.
\<close>

type_synonym document = nat
type_synonym promise = nat
type_synonym ref_id = nat
type_synonym wrapper_id = nat
type_synonym engine = nat

datatype scalar = Str string | Num int

text \<open>The option \<^verbatim>\<open>queryKey?: string | number | any[]\<close>.\<close>

datatype query_key = QKScalar scalar | QKArray "scalar list"

datatype fetch_policy = CacheFirst | CacheAndNetwork | NetworkOnly | NoCache | Standby

text \<open>A variables object: its entries in insertion order; the keys of an object are distinct.\<close>

type_synonym variables = "(string \<times> scalar) list"

record watch_query_options =
  query :: document
  variables :: "variables option"
  fetchPolicy :: fetch_policy

datatype key_part = KDocument document | KString string | KScalar scalar

type_synonym cache_key = "key_part list"

section \<open>Fingerprint key\<close>

text \<open>
  Modelled from the spec: \<^verbatim>\<open>canonicalStringify\<close> (imported from cache/index.js, not among
  the sources).  The spec (4.1): canonicalization sorts the mapping's keys lexicographically
  before serializing; undefined variables canonicalize to a fixed empty marker.  The
  serializer of the sorted entries is a parameter.
\<close>

definition canonicalStringify :: "(variables \<Rightarrow> string) \<Rightarrow> variables option \<Rightarrow> string" where
  "canonicalStringify serialize value =
     (case value of None \<Rightarrow> [] | Some m \<Rightarrow> serialize (sort_key fst m))"

text \<open>\<^verbatim>\<open>([] as any[]).concat(queryKey)\<close>: an array argument is spread, any other value is appended.\<close>

fun concat_queryKey :: "query_key \<Rightarrow> scalar list" where
  "concat_queryKey (QKArray xs) = xs"
| "concat_queryKey (QKScalar x) = [x]"

text \<open>
  Lines 188 and 202: \<^verbatim>\<open>const { queryKey = [] } = options\<close> and
  \<^verbatim>\<open>([] as any[]).concat(queryKey)\<close>, the sequence of scalars that is appended to the key.
\<close>

definition disambiguator :: "query_key option \<Rightarrow> scalar list" where
  "disambiguator queryKey =
     concat_queryKey (case queryKey of None \<Rightarrow> QKArray [] | Some k \<Rightarrow> k)"

text \<open>
  Lines 199-203:
  \<^verbatim>\<open>[query, canonicalStringify(variables), ...([] as any[]).concat(queryKey)]\<close>.
\<close>

definition cacheKey ::
  "(variables \<Rightarrow> string) \<Rightarrow> document \<Rightarrow> variables option \<Rightarrow> query_key option \<Rightarrow> cache_key" where
  "cacheKey serialize query' variables' queryKey =
     [KDocument query', KString (canonicalStringify serialize variables')]
       @ map KScalar (disambiguator queryKey)"

section \<open>Query reference\<close>

text \<open>
  Modelled from the spec: the class behind \<^verbatim>\<open>QueryReference\<close> (react/cache/QueryReference.js,
  not among the sources), after sections 3 and 4.3.  \<open>released\<close> holds, for every release
  callback handed out by \<open>retain\<close>, whether it has run; \<open>disposalPending\<close> says that the
  retain count has dropped to 0 and the disposal has been triggered; \<open>disposerCalls\<close> counts
  the invocations of the disposer.
\<close>

record query_reference =
  key :: cache_key
  currentPromise :: promise
  retainCount :: int
  lastAppliedOptions :: watch_query_options
  released :: "bool list"
  disposalPending :: bool
  disposed :: bool
  disposerCalls :: nat

text \<open>
  Modelled from the spec: the fetch engine's \<^verbatim>\<open>issue(config)\<close> (section 6).  Every invocation
  returns a new promise; the engine's state is the number of invocations so far.
\<close>

definition issue :: "watch_query_options \<Rightarrow> engine \<Rightarrow> promise \<times> engine" where
  "issue config n = (n, Suc n)"

text \<open>
  Modelled from the spec: \<^verbatim>\<open>client.watchQuery(watchQueryOptions)\<close> of line 206 (core, not among
  the sources), the fetch-engine invocation that the factory performs (4.2): it returns the
  options it was given with the promise of the fetch.
\<close>

definition watchQuery :: "watch_query_options \<Rightarrow> engine \<Rightarrow> (watch_query_options \<times> promise) \<times> engine" where
  "watchQuery opts n = (case issue opts n of (p, n') \<Rightarrow> ((opts, p), n'))"

text \<open>
  Modelled from the spec: a reference as the cache creates it on a miss (3): it holds the
  promise of the fetch, and nobody has retained it.
\<close>

definition newQueryReference :: "cache_key \<Rightarrow> watch_query_options \<Rightarrow> promise \<Rightarrow> query_reference" where
  "newQueryReference k opts p =
     \<lparr>key = k, currentPromise = p, retainCount = 0, lastAppliedOptions = opts,
      released = [], disposalPending = False, disposed = False, disposerCalls = 0\<rparr>"

text \<open>
  Modelled from the spec: \<^verbatim>\<open>retain() -> disposeFn\<close> (4.3) increments the retain count and
  returns a release callback, here the index of its flag in \<open>released\<close>.
\<close>

definition retain :: "query_reference \<Rightarrow> nat \<times> query_reference" where
  "retain q =
     (length (released q),
      q\<lparr>retainCount := retainCount q + 1, released := released q @ [False]\<rparr>)"

text \<open>
  Modelled from the spec: the release callback (4.3, 7) decrements exactly once and is a
  no-op when invoked again; when the retain count reaches 0 the disposal is triggered.
\<close>

definition release :: "nat \<Rightarrow> query_reference \<Rightarrow> query_reference" where
  "release i q =
     (if i < length (released q) \<and> \<not> released q ! i then
        (let q' = q\<lparr>retainCount := retainCount q - 1, released := (released q)[i := True]\<rparr>
         in if retainCount q' = 0 then q'\<lparr>disposalPending := True\<rparr> else q')
      else q)"

text \<open>
  Modelled from the spec: the disposal (3, 4.3).  A triggered disposal re-checks the retain count
  immediately before it acts (a retain may have occurred in the interim), and invokes the
  disposer once, guarded by the \<open>disposed\<close> flag.
\<close>

definition dispose :: "query_reference \<Rightarrow> query_reference" where
  "dispose q =
     (if disposalPending q then
        (if retainCount q = 0 \<and> \<not> disposed q
         then q\<lparr>disposalPending := False, disposed := True, disposerCalls := Suc (disposerCalls q)\<rparr>
         else q\<lparr>disposalPending := False\<rparr>)
      else q)"

text \<open>
  Modelled from the spec: the Option-Change Detector (4.5) compares the fields that affect
  the issued request, fetch policy and variables, field by field.
\<close>

definition didChangeOptions :: "query_reference \<Rightarrow> watch_query_options \<Rightarrow> bool" where
  "didChangeOptions q newOptions =
     (fetchPolicy (lastAppliedOptions q) \<noteq> fetchPolicy newOptions
      \<or> variables (lastAppliedOptions q) \<noteq> variables newOptions)"

text \<open>
  Modelled from the spec: \<^verbatim>\<open>applyOptions(newOptions) -> promise\<close> (4.3) delegates to the
  detector; if a re-fetch is required it invokes the fetch engine with the new options,
  replaces the current promise, updates the last applied options and returns the new
  promise; otherwise it returns the existing promise.
\<close>

definition applyOptions ::
  "watch_query_options \<Rightarrow> engine \<times> query_reference \<Rightarrow> promise \<times> engine \<times> query_reference" where
  "applyOptions newOptions st =
     (case st of (n, q) \<Rightarrow>
        if didChangeOptions q newOptions then
          (case issue newOptions n of (p, n') \<Rightarrow>
             (p, n', q\<lparr>currentPromise := p, lastAppliedOptions := newOptions\<rparr>))
        else (currentPromise q, n, q))"

text \<open>
  Modelled from the spec: the reference's method \<^verbatim>\<open>fetchMore\<close> (4.3, 6) always issues a new
  request and replaces the current promise, with no deduplication check.  What the engine
  does with the options of the call is not modelled.
\<close>

definition queryRef_fetchMore :: "engine \<times> query_reference \<Rightarrow> promise \<times> engine \<times> query_reference" where
  "queryRef_fetchMore st =
     (case st of (n, q) \<Rightarrow>
        (case issue (lastAppliedOptions q) n of (p, n') \<Rightarrow> (p, n', q\<lparr>currentPromise := p\<rparr>)))"

text \<open>
  Modelled from the spec: the reference's method \<^verbatim>\<open>refetch(variables)\<close> (4.3, 6) always issues
  a new request and replaces the current promise, with no deduplication check.
\<close>

definition queryRef_refetch ::
  "variables option \<Rightarrow> engine \<times> query_reference \<Rightarrow> promise \<times> engine \<times> query_reference" where
  "queryRef_refetch variables' st =
     (case st of (n, q) \<Rightarrow>
        (case issue ((lastAppliedOptions q)\<lparr>variables := variables'\<rparr>) n of
           (p, n') \<Rightarrow> (p, n', q\<lparr>currentPromise := p\<rparr>)))"

section \<open>Suspense cache and the stores\<close>

record wrapper =
  wrappedRef :: ref_id
  wrappedPromise :: promise

text \<open>
  The state outside the hook: the cache's map from fingerprint keys to query references,
  the store of query references, the store of promise wrappers, and the fetch engine.
\<close>

record world =
  queryRefs :: "cache_key \<rightharpoonup> ref_id"
  refs :: "query_reference list"
  wrappers :: "wrapper list"
  issued :: engine

definition empty_world :: world where
  "empty_world = \<lparr>queryRefs = Map.empty, refs = [], wrappers = [], issued = 0\<rparr>"

text \<open>
  Modelled from the spec: \<^verbatim>\<open>suspenseCache.getQueryRef\<close> (react/cache, not among the
  sources), after 4.2: it returns the existing reference for the key if present; else it
  calls the factory, stores the new reference and returns it.
\<close>

definition getQueryRef ::
  "cache_key \<Rightarrow> (engine \<Rightarrow> (watch_query_options \<times> promise) \<times> engine) \<Rightarrow> world \<Rightarrow> ref_id \<times> world" where
  "getQueryRef k createFn s =
     (case queryRefs s k of
        Some r \<Rightarrow> (r, s)
      | None \<Rightarrow>
          (case createFn (issued s) of
             ((opts, p), n') \<Rightarrow>
               (length (refs s),
                s\<lparr>queryRefs := (queryRefs s)(k \<mapsto> length (refs s)),
                  refs := refs s @ [newQueryReference k opts p],
                  issued := n'\<rparr>)))"

text \<open>
  Modelled from the spec: \<^verbatim>\<open>remove(key, reference)\<close> (4.2) removes the mapping only if the
  stored reference for the key is identical to the one being removed.
\<close>

definition cache_remove :: "cache_key \<Rightarrow> ref_id \<Rightarrow> world \<Rightarrow> world" where
  "cache_remove k r s =
     (if queryRefs s k = Some r then s\<lparr>queryRefs := (queryRefs s)(k := None)\<rparr> else s)"

text \<open>The methods of a stored reference, applied in the store.\<close>

definition retainRef :: "ref_id \<Rightarrow> world \<Rightarrow> nat \<times> world" where
  "retainRef r s =
     (case retain (refs s ! r) of (tok, q') \<Rightarrow> (tok, s\<lparr>refs := (refs s)[r := q']\<rparr>))"

definition releaseRef :: "ref_id \<Rightarrow> nat \<Rightarrow> world \<Rightarrow> world" where
  "releaseRef r tok s = s\<lparr>refs := (refs s)[r := release tok (refs s ! r)]\<rparr>"

text \<open>
  Modelled from the spec: a disposal that goes through asks the cache to remove the
  reference's own entry (4.3).
\<close>

definition disposeRef :: "ref_id \<Rightarrow> world \<Rightarrow> world" where
  "disposeRef r s =
     (let q = refs s ! r; q' = dispose q; s' = s\<lparr>refs := (refs s)[r := q']\<rparr>
      in if disposed q' \<and> \<not> disposed q then cache_remove (key q) r s' else s')"

definition applyOptionsRef :: "ref_id \<Rightarrow> watch_query_options \<Rightarrow> world \<Rightarrow> promise \<times> world" where
  "applyOptionsRef r newOptions s =
     (case applyOptions newOptions (issued s, refs s ! r) of
        (p, n', q') \<Rightarrow> (p, s\<lparr>refs := (refs s)[r := q'], issued := n'\<rparr>))"

definition fetchMoreRef :: "ref_id \<Rightarrow> world \<Rightarrow> promise \<times> world" where
  "fetchMoreRef r s =
     (case queryRef_fetchMore (issued s, refs s ! r) of
        (p, n', q') \<Rightarrow> (p, s\<lparr>refs := (refs s)[r := q'], issued := n'\<rparr>))"

definition refetchRef :: "ref_id \<Rightarrow> variables option \<Rightarrow> world \<Rightarrow> promise \<times> world" where
  "refetchRef r variables' s =
     (case queryRef_refetch variables' (issued s, refs s ! r) of
        (p, n', q') \<Rightarrow> (p, s\<lparr>refs := (refs s)[r := q'], issued := n'\<rparr>))"

section \<open>Promise wrapper\<close>

text \<open>
  The helpers \<^verbatim>\<open>wrapQueryRef\<close>, \<^verbatim>\<open>unwrapQueryRef\<close> and \<^verbatim>\<open>updateWrappedQueryRef\<close> are imported
  from react/cache/QueryReference.js, which is not among the sources.

  Modelled from the spec: \<^verbatim>\<open>wrap(reference, promise) -> wrapper\<close> (4.4) builds a new wrapper
  cell associated with the reference.
\<close>

definition wrapQueryRef :: "ref_id \<Rightarrow> promise \<Rightarrow> world \<Rightarrow> wrapper_id \<times> world" where
  "wrapQueryRef r p s =
     (length (wrappers s),
      s\<lparr>wrappers := wrappers s @ [\<lparr>wrappedRef = r, wrappedPromise = p\<rparr>]\<rparr>)"

text \<open>Modelled from the spec: \<^verbatim>\<open>unwrap(wrapper) -> (reference, promise)\<close> (4.4).\<close>

definition unwrapQueryRef :: "wrapper_id \<Rightarrow> world \<Rightarrow> ref_id \<times> promise" where
  "unwrapQueryRef w s = (wrappedRef (wrappers s ! w), wrappedPromise (wrappers s ! w))"

text \<open>
  Modelled from the spec: \<^verbatim>\<open>updateInPlace(wrapper, newPromise)\<close> (4.4) replaces the promise of
  an existing wrapper without changing the wrapper's identity.
\<close>

definition updateWrappedQueryRef :: "wrapper_id \<Rightarrow> promise \<Rightarrow> world \<Rightarrow> world" where
  "updateWrappedQueryRef w p s =
     s\<lparr>wrappers := (wrappers s)[w := (wrappers s ! w)\<lparr>wrappedPromise := p\<rparr>]\<rparr>"

section \<open>The hook\<close>

text \<open>
  What React keeps for one mounted instance of the hook between renders: the
  \<^verbatim>\<open>didFetchResult\<close> ref (\<open>None\<close> before the first render), the \<^verbatim>\<open>wrapped\<close> state (the
  \<^verbatim>\<open>current\<close> field of the state object), the query reference of the latest render (the
  dependency of the memoised callbacks and of the effect), and the committed effect: the
  reference it retained with its release callback.
\<close>

record hook_state =
  didFetchResult :: "bool option"
  wrapped :: "wrapper_id option"
  rendered :: "ref_id option"
  effect :: "(ref_id \<times> nat) option"

definition mount :: hook_state where
  "mount = \<lparr>didFetchResult = None, wrapped = None, rendered = None, effect = None\<rparr>"

text \<open>
  Lines 209-215.  The argument of \<^verbatim>\<open>React.useState\<close> is evaluated on every render and used
  on the first only; the state object is re-pointed when it wraps another reference.
\<close>

definition render_wrapped :: "ref_id \<Rightarrow> world \<times> hook_state \<Rightarrow> wrapper_id \<times> world" where
  "render_wrapped queryRef st =
     (case st of (s, h) \<Rightarrow>
        (case wrapQueryRef queryRef (currentPromise (refs s ! queryRef)) s of
           (initial, s1) \<Rightarrow>
             (let current = (case wrapped h of None \<Rightarrow> initial | Some w \<Rightarrow> w)
              in if fst (unwrapQueryRef current s1) \<noteq> queryRef
                 then wrapQueryRef queryRef (currentPromise (refs s1 ! queryRef)) s1
                 else (current, s1))))"

text \<open>
  Lines 216-219: when \<^verbatim>\<open>queryRef.didChangeOptions(watchQueryOptions)\<close> holds, the promise
  returned by \<^verbatim>\<open>queryRef.applyOptions(watchQueryOptions)\<close> is stored in the wrapper by
  \<^verbatim>\<open>updateWrappedQueryRef(wrappedQueryRef, promise)\<close>.
\<close>

definition render_options :: "ref_id \<Rightarrow> wrapper_id \<Rightarrow> watch_query_options \<Rightarrow> world \<Rightarrow> world" where
  "render_options queryRef wrappedQueryRef watchQueryOptions s =
     (if didChangeOptions (refs s ! queryRef) watchQueryOptions then
        (case applyOptionsRef queryRef watchQueryOptions s of
           (promise', s') \<Rightarrow> updateWrappedQueryRef wrappedQueryRef promise' s')
      else s)"

text \<open>
  Lines 196-197: \<^verbatim>\<open>React.useRef(fetchPolicy !== "standby")\<close> initialises the ref on the first
  render, and \<^verbatim>\<open>didFetchResult.current ||= fetchPolicy !== "standby"\<close> updates it on every
  render.
\<close>

definition render_didFetchResult :: "hook_state \<Rightarrow> watch_query_options \<Rightarrow> bool" where
  "render_didFetchResult h watchQueryOptions =
     ((case didFetchResult h of None \<Rightarrow> fetchPolicy watchQueryOptions \<noteq> Standby | Some b \<Rightarrow> b)
      \<or> fetchPolicy watchQueryOptions \<noteq> Standby)"

text \<open>
  One render: lines 184-249.  \<open>watchQueryOptions\<close> is the result of \<^verbatim>\<open>useWatchQueryOptions\<close>
  (not among the sources).  The second component of the result stands for the callbacks
  \<^verbatim>\<open>{ fetchMore, refetch }\<close>, which are bound to the render's query reference.
\<close>

definition useBackgroundQuery ::
  "(variables \<Rightarrow> string) \<Rightarrow> document \<Rightarrow> watch_query_options \<Rightarrow> query_key option
     \<Rightarrow> world \<times> hook_state \<Rightarrow> (wrapper_id option \<times> ref_id) \<times> world \<times> hook_state" where
  "useBackgroundQuery serialize query' watchQueryOptions queryKey st =
     (case st of (s, h) \<Rightarrow>
        (case getQueryRef (cacheKey serialize query' (variables watchQueryOptions) queryKey)
                (watchQuery watchQueryOptions) s of
           (queryRef, s1) \<Rightarrow>
             (case render_wrapped queryRef (s1, h) of
                (wrappedQueryRef, s2) \<Rightarrow>
                  ((if render_didFetchResult h watchQueryOptions then Some wrappedQueryRef else None,
                    queryRef),
                   render_options queryRef wrappedQueryRef watchQueryOptions s2,
                   h\<lparr>didFetchResult := Some (render_didFetchResult h watchQueryOptions),
                     wrapped := Some wrappedQueryRef, rendered := Some queryRef\<rparr>))))"

text \<open>
  Line 221: \<^verbatim>\<open>React.useEffect(() => queryRef.retain(), [queryRef])\<close>, run after a render
  commits: on the first commit and whenever the query reference has changed, the cleanup of
  the previous effect (the release callback) runs, and the reference of the render is
  retained.
\<close>

definition commitEffect :: "world \<times> hook_state \<Rightarrow> world \<times> hook_state" where
  "commitEffect st =
     (case st of (s, h) \<Rightarrow>
        (case rendered h of
           None \<Rightarrow> (s, h)
         | Some queryRef \<Rightarrow>
             if map_option fst (effect h) = Some queryRef then (s, h)
             else
               (let s1 = (case effect h of None \<Rightarrow> s | Some (r, tok) \<Rightarrow> releaseRef r tok s)
                in case retainRef queryRef s1 of
                     (tok', s2) \<Rightarrow> (s2, h\<lparr>effect := Some (queryRef, tok')\<rparr>))))"

text \<open>
  Lines 223-232: the callback \<^verbatim>\<open>fetchMore\<close> of the latest render.  It calls the reference's
  method and then \<^verbatim>\<open>setWrappedQueryRef\<close> with a state object that holds a new wrapper.  The
  call's options go to the reference's method and are not modelled; before the first
  render there is no callback.
\<close>

definition fetchMore :: "world \<times> hook_state \<Rightarrow> promise option \<times> world \<times> hook_state" where
  "fetchMore st =
     (case st of (s, h) \<Rightarrow>
        (case rendered h of
           None \<Rightarrow> (None, s, h)
         | Some queryRef \<Rightarrow>
             (case fetchMoreRef queryRef s of
                (promise', s1) \<Rightarrow>
                  (case wrapQueryRef queryRef (currentPromise (refs s1 ! queryRef)) s1 of
                     (w, s2) \<Rightarrow> (Some promise', s2, h\<lparr>wrapped := Some w\<rparr>)))))"

text \<open>Lines 234-243: the callback \<^verbatim>\<open>refetch\<close> of the latest render, in the same way.\<close>

definition refetch :: "variables option \<Rightarrow> world \<times> hook_state \<Rightarrow> promise option \<times> world \<times> hook_state" where
  "refetch variables' st =
     (case st of (s, h) \<Rightarrow>
        (case rendered h of
           None \<Rightarrow> (None, s, h)
         | Some queryRef \<Rightarrow>
             (case refetchRef queryRef variables' s of
                (promise', s1) \<Rightarrow>
                  (case wrapQueryRef queryRef (currentPromise (refs s1 ! queryRef)) s1 of
                     (w, s2) \<Rightarrow> (Some promise', s2, h\<lparr>wrapped := Some w\<rparr>)))))"

section \<open>Runs\<close>

text \<open>
  The calls on one query reference: a consumer retains it, invokes a release callback, or
  a triggered disposal runs.
\<close>

datatype ref_event = Retain | Release nat | Dispose

fun apply_event :: "ref_event \<Rightarrow> query_reference \<Rightarrow> query_reference" where
  "apply_event Retain q = snd (retain q)"
| "apply_event (Release i) q = release i q"
| "apply_event Dispose q = dispose q"

definition run_events :: "ref_event list \<Rightarrow> query_reference \<Rightarrow> query_reference" where
  "run_events evs q = fold apply_event evs q"

text \<open>The callers of one scheduling tick asking the cache for the same key, in order.\<close>

fun getQueryRefs ::
  "cache_key \<Rightarrow> (engine \<Rightarrow> (watch_query_options \<times> promise) \<times> engine) list \<Rightarrow> world
     \<Rightarrow> ref_id list \<times> world" where
  "getQueryRefs k [] s = ([], s)"
| "getQueryRefs k (createFn # fs) s =
     (case getQueryRef k createFn s of
        (r, s1) \<Rightarrow> (case getQueryRefs k fs s1 of (rs, s2) \<Rightarrow> (r # rs, s2)))"

text \<open>
  The operations that reach the cache and its references.  An operation on a reference
  is invoked on a reference that exists.
\<close>

datatype cache_op =
    GetQueryRef cache_key "engine \<Rightarrow> (watch_query_options \<times> promise) \<times> engine"
  | RetainOp ref_id
  | ReleaseOp ref_id nat
  | DisposeOp ref_id
  | ApplyOptionsOp ref_id watch_query_options
  | FetchMoreOp ref_id
  | RefetchOp ref_id "variables option"

fun exec :: "cache_op \<Rightarrow> world \<Rightarrow> world" where
  "exec (GetQueryRef k createFn) s = snd (getQueryRef k createFn s)"
| "exec (RetainOp r) s = (if r < length (refs s) then snd (retainRef r s) else s)"
| "exec (ReleaseOp r tok) s = (if r < length (refs s) then releaseRef r tok s else s)"
| "exec (DisposeOp r) s = (if r < length (refs s) then disposeRef r s else s)"
| "exec (ApplyOptionsOp r opts) s = (if r < length (refs s) then snd (applyOptionsRef r opts s) else s)"
| "exec (FetchMoreOp r) s = (if r < length (refs s) then snd (fetchMoreRef r s) else s)"
| "exec (RefetchOp r vs) s = (if r < length (refs s) then snd (refetchRef r vs s) else s)"

definition reach :: "cache_op list \<Rightarrow> world" where
  "reach ops = fold exec ops empty_world"

text \<open>A reference is live while it has not been disposed.\<close>

definition live :: "world \<Rightarrow> ref_id \<Rightarrow> bool" where
  "live s r = (r < length (refs s) \<and> \<not> disposed (refs s ! r))"

text \<open>What happens to one mounted instance of the hook.\<close>

datatype consumer_event =
    Render document watch_query_options "query_key option"
  | Commit
  | FetchMore
  | Refetch "variables option"

fun consumer_step ::
  "(variables \<Rightarrow> string) \<Rightarrow> consumer_event \<Rightarrow> world \<times> hook_state \<Rightarrow> world \<times> hook_state" where
  "consumer_step serialize (Render q opts qk) st = snd (useBackgroundQuery serialize q opts qk st)"
| "consumer_step serialize Commit st = commitEffect st"
| "consumer_step serialize FetchMore st = snd (fetchMore st)"
| "consumer_step serialize (Refetch vs) st = snd (refetch vs st)"

definition consumer_run ::
  "(variables \<Rightarrow> string) \<Rightarrow> consumer_event list \<Rightarrow> world \<times> hook_state \<Rightarrow> world \<times> hook_state" where
  "consumer_run serialize evs st = fold (consumer_step serialize) evs st"

fun is_render :: "consumer_event \<Rightarrow> bool" where
  "is_render (Render q opts qk) = True"
| "is_render e = False"

fun is_fetch :: "consumer_event \<Rightarrow> bool" where
  "is_fetch FetchMore = True"
| "is_fetch (Refetch vs) = True"
| "is_fetch e = False"

fun enables :: "consumer_event \<Rightarrow> bool" where
  "enables (Render q opts qk) = (fetchPolicy opts \<noteq> Standby)"
| "enables e = False"

text \<open>The wrapper that the hook's state holds, if any, exists in the store.\<close>

definition hook_ok :: "world \<times> hook_state \<Rightarrow> bool" where
  "hook_ok st =
     (case st of (s, h) \<Rightarrow>
        (case wrapped h of None \<Rightarrow> True | Some w \<Rightarrow> w < length (wrappers s)))"

text \<open>
  What every run of calls keeps true of a reference: the retain count is the number of
  release callbacks that have not run, the disposer has been invoked once if the
  reference is disposed and never otherwise, a reference whose count is back at 0 is
  disposed or has its disposal pending, and nothing happens to a reference that was never
  retained.
\<close>

definition ref_inv :: "query_reference \<Rightarrow> bool" where
  "ref_inv q =
     (retainCount q = int (length (filter Not (released q)))
      \<and> disposerCalls q = (if disposed q then 1 else 0)
      \<and> (retainCount q = 0 \<and> released q \<noteq> [] \<longrightarrow> disposed q \<or> disposalPending q)
      \<and> (released q = [] \<longrightarrow> \<not> disposed q \<and> \<not> disposalPending q))"

text \<open>Inputs of the examples.\<close>

definition demo_options :: "fetch_policy \<Rightarrow> watch_query_options" where
  "demo_options fp = \<lparr>query = 0, variables = None, fetchPolicy = fp\<rparr>"

definition demo_serialize :: "variables \<Rightarrow> string" where
  "demo_serialize m = concat (map fst m)"

definition demo_reference :: query_reference where
  "demo_reference = newQueryReference [] (demo_options CacheFirst) 0"

definition demo_render ::
  "fetch_policy \<Rightarrow> world \<times> hook_state \<Rightarrow> (wrapper_id option \<times> ref_id) \<times> world \<times> hook_state" where
  "demo_render fp = useBackgroundQuery demo_serialize 0 (demo_options fp) None"

definition demo_mounted :: "world \<times> hook_state" where
  "demo_mounted = snd (demo_render CacheFirst (empty_world, mount))"

definition demo_committed :: "world \<times> hook_state" where
  "demo_committed = consumer_run demo_serialize [Commit] demo_mounted"

definition demo_ops :: "cache_op list" where
  "demo_ops =
     [GetQueryRef [KDocument 0] (watchQuery (demo_options CacheFirst)), RetainOp 0, ReleaseOp 0 0]"

definition demo_history :: "consumer_event list" where
  "demo_history = [Render 0 (demo_options Standby) None, Render 0 (demo_options CacheFirst) None]"

text \<open>
  What holds of the cache at every reachable state: the map holds live references, each
  under its own key, and every live reference is the one the map holds for its key.
\<close>

definition cache_inv :: "world \<Rightarrow> bool" where
  "cache_inv s =
     ((\<forall>k r. queryRefs s k = Some r \<longrightarrow> live s r \<and> key (refs s ! r) = k)
      \<and> (\<forall>r. live s r \<longrightarrow> queryRefs s (key (refs s ! r)) = Some r))"

text \<open>
  The state of a mounted hook after a render has exposed the wrapper \<open>wA\<close> for the
  reference \<open>rA\<close>, and before the next render: either no callback has run since and the
  hook still holds \<open>wA\<close>, or a callback has run (\<open>fetched\<close>) and the hook holds a wrapper
  that was created later.
\<close>

definition between :: "wrapper_id \<Rightarrow> ref_id \<Rightarrow> bool \<Rightarrow> world \<times> hook_state \<Rightarrow> bool" where
  "between wA rA fetched st =
     (case st of (s, h) \<Rightarrow>
        rendered h = Some rA \<and> didFetchResult h = Some True
        \<and> wA < length (wrappers s) \<and> wrappedRef (wrappers s ! wA) = rA
        \<and> (if fetched then \<exists>w'. wrapped h = Some w' \<and> wA < w' \<and> w' < length (wrappers s)
            else wrapped h = Some wA))"

section \<open>Auxiliary facts\<close>

subsection \<open>Fingerprint key\<close>

lemma canonicalStringify_permutation:
  assumes "distinct (map fst m)" and "mset m' = mset m"
  shows "canonicalStringify serialize (Some m') = canonicalStringify serialize (Some m)"
proof -
  have "inj_on fst (set m')"
    using assms by (metis distinct_map mset_eq_setD)
  then have "sort_key fst m' = sort_key fst m"
    using assms(2) by (intro sort_key_inj_key_eq) auto
  then show ?thesis by (simp add: canonicalStringify_def)
qed

lemma cacheKey_disambiguator:
  "cacheKey serialize q v qk1 = cacheKey serialize q v qk2 \<longleftrightarrow> disambiguator qk1 = disambiguator qk2"
  by (auto simp: cacheKey_def inj_on_def dest: map_inj_on)

subsection \<open>Retain and release\<close>

lemma ref_inv_new: "ref_inv (newQueryReference k opts p)"
  by (simp add: ref_inv_def newQueryReference_def)

lemma filter_Not_update:
  "i < length bs \<Longrightarrow> \<not> bs ! i \<Longrightarrow>
     Suc (length (filter Not (bs[i := True]))) = length (filter Not bs)"
proof (induction bs arbitrary: i)
  case Nil
  then show ?case by simp
next
  case (Cons b bs)
  then show ?case by (cases i) auto
qed

lemma ref_inv_retain: "ref_inv q \<Longrightarrow> ref_inv (snd (retain q))"
  by (auto simp: ref_inv_def retain_def)

lemma ref_inv_release:
  assumes "ref_inv q"
  shows "ref_inv (release i q)"
proof (cases "i < length (released q) \<and> \<not> released q ! i")
  case True
  then have "Suc (length (filter Not ((released q)[i := True]))) = length (filter Not (released q))"
    by (simp add: filter_Not_update)
  with assms True show ?thesis
    by (auto simp: ref_inv_def release_def Let_def)
next
  case False
  with assms show ?thesis by (auto simp: release_def)
qed

lemma ref_inv_dispose: "ref_inv q \<Longrightarrow> ref_inv (dispose q)"
  by (auto simp: ref_inv_def dispose_def)

lemma ref_inv_event: "ref_inv q \<Longrightarrow> ref_inv (apply_event e q)"
  by (cases e) (simp_all add: ref_inv_retain ref_inv_release ref_inv_dispose)

lemma ref_inv_run: "ref_inv q \<Longrightarrow> ref_inv (run_events evs q)"
  unfolding run_events_def
  by (induction evs arbitrary: q) (simp_all add: ref_inv_event)

lemma released_mono_event:
  "i < length (released q) \<Longrightarrow> released q ! i \<Longrightarrow>
     i < length (released (apply_event e q)) \<and> released (apply_event e q) ! i"
  by (cases e) (auto simp: retain_def release_def dispose_def Let_def nth_append nth_list_update)

lemma released_mono_run:
  "i < length (released q) \<Longrightarrow> released q ! i \<Longrightarrow>
     i < length (released (run_events evs q)) \<and> released (run_events evs q) ! i"
  unfolding run_events_def
proof (induction evs arbitrary: q)
  case Nil
  then show ?case by simp
next
  case (Cons e evs)
  then show ?case using released_mono_event[of i q e] by simp
qed

lemma release_released: "i < length (released q) \<Longrightarrow> released (release i q) ! i"
  by (auto simp: release_def Let_def)

lemma length_released_release: "length (released (release i q)) = length (released q)"
  by (auto simp: release_def Let_def)

lemma release_noop: "released q ! i \<Longrightarrow> release i q = q"
  by (simp add: release_def)

lemma release_decrement:
  "i < length (released q) \<Longrightarrow>
     retainCount (release i q) = retainCount q - (if released q ! i then 0 else 1)"
  by (auto simp: release_def Let_def)

lemma ref_inv_disposer_once: "ref_inv q \<Longrightarrow> disposerCalls q \<le> 1"
  by (simp add: ref_inv_def)

lemma ref_inv_dispose_zero:
  "ref_inv q \<Longrightarrow> released q \<noteq> [] \<Longrightarrow> retainCount q = 0 \<Longrightarrow> disposerCalls (dispose q) = 1"
  by (auto simp: ref_inv_def dispose_def)

subsection \<open>Suspense cache\<close>

lemma getQueryRef_hit: "queryRefs s k = Some r \<Longrightarrow> getQueryRef k f s = (r, s)"
  by (simp add: getQueryRef_def)

lemma getQueryRef_miss:
  "queryRefs s k = None \<Longrightarrow>
     getQueryRef k (watchQuery opts) s =
       (length (refs s),
        s\<lparr>queryRefs := (queryRefs s)(k \<mapsto> length (refs s)),
          refs := refs s @ [newQueryReference k opts (issued s)],
          issued := Suc (issued s)\<rparr>)"
  by (simp add: getQueryRef_def watchQuery_def issue_def)

lemma getQueryRef_created:
  assumes "getQueryRef k (watchQuery opts) s = (r, s1)" and "queryRefs s k = None"
  shows "r = length (refs s) \<and> refs s1 ! r = newQueryReference k opts (issued s)"
  using assms by (auto simp: getQueryRef_def watchQuery_def issue_def Let_def split: prod.splits)

lemma getQueryRefs_hit:
  "queryRefs s k = Some r \<Longrightarrow> getQueryRefs k fs s = (replicate (length fs) r, s)"
  by (induction fs) (simp_all add: getQueryRef_hit)

lemma getQueryRef_existing:
  assumes "getQueryRef k f s = (r, s1)" and "r < length (refs s)"
  shows "s1 = s \<and> queryRefs s k = Some r"
  using assms by (auto simp: getQueryRef_def split: option.splits prod.splits)


lemma cache_inv_empty: "cache_inv empty_world"
  by (simp add: cache_inv_def empty_world_def live_def)

lemma cache_inv_same:
  assumes "cache_inv s" and "queryRefs s' = queryRefs s" and "length (refs s') = length (refs s)"
    and "\<And>i. i < length (refs s) \<Longrightarrow>
           key (refs s' ! i) = key (refs s ! i) \<and> disposed (refs s' ! i) = disposed (refs s ! i)"
  shows "cache_inv s'"
proof -
  have l: "live s' r = live s r" for r using assms(3,4) by (auto simp: live_def)
  have k: "live s r \<Longrightarrow> key (refs s' ! r) = key (refs s ! r)" for r
    using assms(4) by (simp add: live_def)
  show ?thesis using assms(1,2) l k by (auto simp: cache_inv_def)
qed

lemma cache_inv_update:
  assumes "cache_inv s" and "queryRefs s' = queryRefs s" and "refs s' = (refs s)[r := q']"
    and "key q' = key (refs s ! r)" and "disposed q' = disposed (refs s ! r)"
  shows "cache_inv s'"
proof (rule cache_inv_same[OF assms(1,2)])
  show "length (refs s') = length (refs s)" using assms(3) by simp
next
  fix i assume "i < length (refs s)"
  then show "key (refs s' ! i) = key (refs s ! i) \<and> disposed (refs s' ! i) = disposed (refs s ! i)"
    using assms(3,4,5) by (cases "i = r") simp_all
qed

lemma retain_same: "key (snd (retain q)) = key q \<and> disposed (snd (retain q)) = disposed q"
  by (simp add: retain_def)

lemma release_same: "key (release i q) = key q \<and> disposed (release i q) = disposed q"
  by (simp add: release_def Let_def)

lemma applyOptions_same:
  "key (snd (snd (applyOptions opts (n, q)))) = key q
   \<and> disposed (snd (snd (applyOptions opts (n, q)))) = disposed q"
  by (simp add: applyOptions_def issue_def)

lemma queryRef_fetchMore_same:
  "key (snd (snd (queryRef_fetchMore (n, q)))) = key q
   \<and> disposed (snd (snd (queryRef_fetchMore (n, q)))) = disposed q"
  by (simp add: queryRef_fetchMore_def issue_def)

lemma queryRef_refetch_same:
  "key (snd (snd (queryRef_refetch vs (n, q)))) = key q
   \<and> disposed (snd (snd (queryRef_refetch vs (n, q)))) = disposed q"
  by (simp add: queryRef_refetch_def issue_def)

lemma retainRef_world:
  "queryRefs (snd (retainRef r s)) = queryRefs s
   \<and> refs (snd (retainRef r s)) = (refs s)[r := snd (retain (refs s ! r))]"
  by (simp add: retainRef_def split: prod.splits)

lemma releaseRef_world:
  "queryRefs (releaseRef r tok s) = queryRefs s
   \<and> refs (releaseRef r tok s) = (refs s)[r := release tok (refs s ! r)]"
  by (simp add: releaseRef_def)

lemma applyOptionsRef_world:
  "queryRefs (snd (applyOptionsRef r opts s)) = queryRefs s
   \<and> refs (snd (applyOptionsRef r opts s))
       = (refs s)[r := snd (snd (applyOptions opts (issued s, refs s ! r)))]"
  by (simp add: applyOptionsRef_def split: prod.splits)

lemma fetchMoreRef_world:
  "queryRefs (snd (fetchMoreRef r s)) = queryRefs s
   \<and> refs (snd (fetchMoreRef r s))
       = (refs s)[r := snd (snd (queryRef_fetchMore (issued s, refs s ! r)))]"
  by (simp add: fetchMoreRef_def split: prod.splits)

lemma refetchRef_world:
  "queryRefs (snd (refetchRef r vs s)) = queryRefs s
   \<and> refs (snd (refetchRef r vs s))
       = (refs s)[r := snd (snd (queryRef_refetch vs (issued s, refs s ! r)))]"
  by (simp add: refetchRef_def split: prod.splits)

lemma getQueryRef_cases:
  "(\<exists>r. queryRefs s k = Some r \<and> getQueryRef k f s = (r, s))
   \<or> (queryRefs s k = None
       \<and> (\<exists>opts p n. getQueryRef k f s =
            (length (refs s),
             s\<lparr>queryRefs := (queryRefs s)(k \<mapsto> length (refs s)),
               refs := refs s @ [newQueryReference k opts p], issued := n\<rparr>)))"
  by (cases "queryRefs s k"; cases "f (issued s)") (auto simp: getQueryRef_def)

lemma cache_inv_getQueryRef:
  assumes "cache_inv s"
  shows "cache_inv (snd (getQueryRef k f s))"
proof -
  from getQueryRef_cases[of s k f] show ?thesis
  proof (elim disjE exE conjE)
    fix r assume "getQueryRef k f s = (r, s)"
    then show ?thesis using assms by simp
  next
    fix opts p n
    assume miss: "queryRefs s k = None"
      and g: "getQueryRef k f s =
            (length (refs s),
             s\<lparr>queryRefs := (queryRefs s)(k \<mapsto> length (refs s)),
               refs := refs s @ [newQueryReference k opts p], issued := n\<rparr>)"
    have fresh: "live s r \<Longrightarrow> key (refs s ! r) \<noteq> k" for r
      using assms miss by (auto simp: cache_inv_def)
    show ?thesis using assms fresh unfolding g
      by (auto simp: cache_inv_def live_def nth_append newQueryReference_def less_Suc_eq)
  qed
qed

lemma dispose_same: "key (dispose q) = key q \<and> (disposed q \<longrightarrow> disposed (dispose q))"
  by (simp add: dispose_def)

lemma cache_inv_disposeRef:
  assumes "cache_inv s" and "r < length (refs s)"
  shows "cache_inv (disposeRef r s)"
proof (cases "disposed (dispose (refs s ! r)) \<and> \<not> disposed (refs s ! r)")
  case False
  then have d: "disposed (dispose (refs s ! r)) = disposed (refs s ! r)"
    using dispose_same[of "refs s ! r"] by blast
  have e: "disposeRef r s = s\<lparr>refs := (refs s)[r := dispose (refs s ! r)]\<rparr>"
    unfolding disposeRef_def Let_def by (rule if_not_P[OF False])
  have "cache_inv (s\<lparr>refs := (refs s)[r := dispose (refs s ! r)]\<rparr>)"
  proof (rule cache_inv_update[OF assms(1), of _ r "dispose (refs s ! r)"])
    show "queryRefs (s\<lparr>refs := (refs s)[r := dispose (refs s ! r)]\<rparr>) = queryRefs s" by simp
    show "refs (s\<lparr>refs := (refs s)[r := dispose (refs s ! r)]\<rparr>)
        = (refs s)[r := dispose (refs s ! r)]" by simp
    show "key (dispose (refs s ! r)) = key (refs s ! r)" by (simp add: dispose_same)
    show "disposed (dispose (refs s ! r)) = disposed (refs s ! r)" by (rule d)
  qed
  then show ?thesis unfolding e .
next
  case True
  let ?k = "key (refs s ! r)"
  let ?rs = "(refs s)[r := dispose (refs s ! r)]"
  have lr: "live s r" using assms(2) True by (simp add: live_def)
  then have reg: "queryRefs s ?k = Some r"
    using assms(1) by (simp add: cache_inv_def)
  have eq: "disposeRef r s = s\<lparr>refs := ?rs, queryRefs := (queryRefs s)(?k := None)\<rparr>"
    using True reg by (simp add: disposeRef_def Let_def cache_remove_def)
  have nth: "r' \<noteq> r \<Longrightarrow> ?rs ! r' = refs s ! r'" for r' by simp
  have dr: "disposed (?rs ! r)" using True assms(2) by simp
  have K: "live (disposeRef r s) r' \<and> key (refs (disposeRef r s) ! r') = k"
    if "queryRefs (disposeRef r s) k = Some r'" for k r'
  proof -
    from that have k: "k \<noteq> ?k" and q: "queryRefs s k = Some r'"
      unfolding eq by (simp_all split: if_splits)
    then have l: "live s r'" "key (refs s ! r') = k"
      using assms(1) by (simp_all add: cache_inv_def)
    then have "r' \<noteq> r" using k by auto
    then show ?thesis using l nth unfolding eq by (simp add: live_def)
  qed
  have J: "queryRefs (disposeRef r s) (key (refs (disposeRef r s) ! r')) = Some r'"
    if "live (disposeRef r s) r'" for r'
  proof -
    from that dr have ne: "r' \<noteq> r" unfolding eq by (auto simp: live_def)
    then have l: "live s r'" using that nth unfolding eq by (simp add: live_def)
    then have q: "queryRefs s (key (refs s ! r')) = Some r'"
      using assms(1) by (simp add: cache_inv_def)
    then have "key (refs s ! r') \<noteq> ?k" using reg ne by auto
    then show ?thesis using q ne nth unfolding eq by simp
  qed
  show ?thesis unfolding cache_inv_def
  proof (intro conjI allI impI)
    fix k r' assume "queryRefs (disposeRef r s) k = Some r'"
    then show "live (disposeRef r s) r'" using K by blast
  next
    fix k r' assume "queryRefs (disposeRef r s) k = Some r'"
    then show "key (refs (disposeRef r s) ! r') = k" using K by blast
  next
    fix r' assume "live (disposeRef r s) r'"
    then show "queryRefs (disposeRef r s) (key (refs (disposeRef r s) ! r')) = Some r'" by (rule J)
  qed
qed

lemma cache_inv_exec:
  assumes "cache_inv s"
  shows "cache_inv (exec a s)"
proof (cases a)
  case (GetQueryRef k f)
  then show ?thesis using assms by (simp add: cache_inv_getQueryRef)
next
  case (RetainOp r)
  have "cache_inv (snd (retainRef r s))"
    by (rule cache_inv_update[OF assms, of _ r "snd (retain (refs s ! r))"])
      (simp_all add: retainRef_world retain_same)
  then show ?thesis using assms RetainOp by simp
next
  case (ReleaseOp r tok)
  have "cache_inv (releaseRef r tok s)"
    by (rule cache_inv_update[OF assms, of _ r "release tok (refs s ! r)"])
      (simp_all add: releaseRef_world release_same)
  then show ?thesis using assms ReleaseOp by simp
next
  case (DisposeOp r)
  then show ?thesis using assms by (simp add: cache_inv_disposeRef)
next
  case (ApplyOptionsOp r opts)
  have "cache_inv (snd (applyOptionsRef r opts s))"
    by (rule cache_inv_update[OF assms, of _ r "snd (snd (applyOptions opts (issued s, refs s ! r)))"])
      (simp_all add: applyOptionsRef_world applyOptions_same)
  then show ?thesis using assms ApplyOptionsOp by simp
next
  case (FetchMoreOp r)
  have "cache_inv (snd (fetchMoreRef r s))"
    by (rule cache_inv_update[OF assms, of _ r "snd (snd (queryRef_fetchMore (issued s, refs s ! r)))"])
      (simp_all add: fetchMoreRef_world queryRef_fetchMore_same)
  then show ?thesis using assms FetchMoreOp by simp
next
  case (RefetchOp r vs)
  have "cache_inv (snd (refetchRef r vs s))"
    by (rule cache_inv_update[OF assms, of _ r "snd (snd (queryRef_refetch vs (issued s, refs s ! r)))"])
      (simp_all add: refetchRef_world queryRef_refetch_same)
  then show ?thesis using assms RefetchOp by simp
qed

lemma cache_inv_fold: "cache_inv s \<Longrightarrow> cache_inv (fold exec ops s)"
  by (induction ops arbitrary: s) (simp_all add: cache_inv_exec)

lemma cache_inv_reach: "cache_inv (reach ops)"
  by (simp add: reach_def cache_inv_fold cache_inv_empty)

lemma exec_queryRefs:
  "(\<forall>k f. a \<noteq> GetQueryRef k f) \<Longrightarrow> (\<forall>r. a \<noteq> DisposeOp r) \<Longrightarrow> queryRefs (exec a s) = queryRefs s"
  by (cases a)
    (simp_all add: retainRef_world releaseRef_world applyOptionsRef_world fetchMoreRef_world
      refetchRef_world)

lemma exec_added:
  assumes "queryRefs (exec a s) k = Some r" and "queryRefs s k \<noteq> Some r"
  shows "queryRefs s k = None \<and> (\<exists>f. a = GetQueryRef k f) \<and> r = length (refs s)"
proof (cases a)
  case (GetQueryRef k' f)
  from getQueryRef_cases[of s k' f] show ?thesis
    using assms GetQueryRef by (auto split: if_splits)
next
  case (DisposeOp r0)
  have "queryRefs (disposeRef r0 s) k = Some r \<Longrightarrow> queryRefs s k = Some r"
    by (simp add: disposeRef_def cache_remove_def Let_def split: if_splits)
  then show ?thesis using assms DisposeOp by (simp split: if_splits)
qed (use assms exec_queryRefs[of a s] in simp_all)

lemma disposeRef_removed:
  assumes "queryRefs s k = Some r" and "queryRefs (disposeRef r0 s) k \<noteq> Some r"
    and "r0 < length (refs s)"
  shows "r0 = r \<and> queryRefs (disposeRef r0 s) k = None \<and> disposed (refs (disposeRef r0 s) ! r)"
proof (cases "disposed (dispose (refs s ! r0)) \<and> \<not> disposed (refs s ! r0)")
  case False
  have e: "disposeRef r0 s = s\<lparr>refs := (refs s)[r0 := dispose (refs s ! r0)]\<rparr>"
    unfolding disposeRef_def Let_def by (rule if_not_P[OF False])
  have "queryRefs (disposeRef r0 s) = queryRefs s" unfolding e by simp
  then show ?thesis using assms(1,2) by simp
next
  case True
  show ?thesis
  proof (cases "queryRefs s (key (refs s ! r0)) = Some r0")
    case False
    then have "queryRefs (disposeRef r0 s) = queryRefs s"
      using True by (simp add: disposeRef_def Let_def cache_remove_def)
    then show ?thesis using assms by simp
  next
    case reg: True
    have eq: "disposeRef r0 s = s\<lparr>refs := (refs s)[r0 := dispose (refs s ! r0)],
        queryRefs := (queryRefs s)(key (refs s ! r0) := None)\<rparr>"
      using True reg by (simp add: disposeRef_def Let_def cache_remove_def)
    have k: "k = key (refs s ! r0)" using assms(1,2) unfolding eq by (simp split: if_splits)
    then have "r0 = r" using reg assms(1) by simp
    then show ?thesis using True assms(3) k unfolding eq by simp
  qed
qed

lemma exec_removed:
  assumes "queryRefs s k = Some r" and "queryRefs (exec a s) k \<noteq> Some r"
  shows "a = DisposeOp r \<and> queryRefs (exec a s) k = None \<and> disposed (refs (exec a s) ! r)"
proof (cases a)
  case (GetQueryRef k' f)
  from getQueryRef_cases[of s k' f] show ?thesis
    using assms GetQueryRef by (auto split: if_splits)
next
  case (DisposeOp r0)
  show ?thesis
  proof (cases "r0 < length (refs s)")
    case True
    then have e: "exec a s = disposeRef r0 s" using DisposeOp by simp
    have "r0 = r \<and> queryRefs (disposeRef r0 s) k = None \<and> disposed (refs (disposeRef r0 s) ! r)"
      using assms True unfolding e by (intro disposeRef_removed)
    then show ?thesis using DisposeOp e by auto
  next
    case False
    then show ?thesis using assms DisposeOp by simp
  qed
qed (use assms exec_queryRefs[of a s] in simp_all)

subsection \<open>The hook\<close>

lemma getQueryRef_wrappers: "getQueryRef k f s = (r, s1) \<Longrightarrow> wrappers s1 = wrappers s"
  by (auto simp: getQueryRef_def split: option.splits prod.splits)

lemma render_wrapped_frame:
  assumes "render_wrapped r (s1, h) = (w, s2)"
  shows "refs s2 = refs s1 \<and> queryRefs s2 = queryRefs s1 \<and> issued s2 = issued s1
       \<and> length (wrappers s1) < length (wrappers s2)
       \<and> (\<forall>i<length (wrappers s1). wrappers s2 ! i = wrappers s1 ! i)"
  using assms
  by (auto simp: render_wrapped_def wrapQueryRef_def unwrapQueryRef_def Let_def nth_append
      split: option.splits if_splits)

lemma render_wrapped_result:
  assumes "render_wrapped r (s1, h) = (w, s2)" and "hook_ok (s1, h)"
  shows "w < length (wrappers s2) \<and> wrappedRef (wrappers s2 ! w) = r
       \<and> (case wrapped h of
             None \<Rightarrow> w = length (wrappers s1)
           | Some w0 \<Rightarrow> if wrappedRef (wrappers s1 ! w0) = r then w = w0
                        else w = Suc (length (wrappers s1)))"
  using assms
  by (auto simp: render_wrapped_def wrapQueryRef_def unwrapQueryRef_def Let_def nth_append
      hook_ok_def split: option.splits if_splits)

lemma wrappedRef_update:
  "i < length ws \<Longrightarrow> wrappedRef (ws[w := (ws ! w)\<lparr>wrappedPromise := p\<rparr>] ! i) = wrappedRef (ws ! i)"
  by (cases "i = w") simp_all

lemma render_options_frame:
  "queryRefs (render_options r w opts s) = queryRefs s
   \<and> length (wrappers (render_options r w opts s)) = length (wrappers s)
   \<and> length (refs (render_options r w opts s)) = length (refs s)
   \<and> (\<forall>i<length (wrappers s).
        wrappedRef (wrappers (render_options r w opts s) ! i) = wrappedRef (wrappers s ! i))"
  by (auto simp: render_options_def applyOptionsRef_def updateWrappedQueryRef_def applyOptions_def
      issue_def wrappedRef_update split: prod.splits)

lemma render_options_unchanged:
  "\<not> didChangeOptions (refs s ! r) opts \<Longrightarrow> render_options r w opts s = s"
  by (simp add: render_options_def)

lemma render_options_changed:
  assumes "didChangeOptions (refs s ! r) opts" and "r < length (refs s)" and "w < length (wrappers s)"
  shows "issued (render_options r w opts s) = Suc (issued s)
       \<and> currentPromise (refs (render_options r w opts s) ! r) = issued s
       \<and> lastAppliedOptions (refs (render_options r w opts s) ! r) = opts
       \<and> wrappedPromise (wrappers (render_options r w opts s) ! w) = issued s
       \<and> wrappedRef (wrappers (render_options r w opts s) ! w) = wrappedRef (wrappers s ! w)"
  using assms
  by (simp add: render_options_def applyOptionsRef_def updateWrappedQueryRef_def applyOptions_def
      issue_def)

lemma useBackgroundQuery_unfold:
  assumes "useBackgroundQuery ser q opts qk (s, h) = ((res, r), (s', h'))"
  obtains s1 w s2 where
    "getQueryRef (cacheKey ser q (variables opts) qk) (watchQuery opts) s = (r, s1)"
    "render_wrapped r (s1, h) = (w, s2)"
    "s' = render_options r w opts s2"
    "h' = h\<lparr>didFetchResult := Some (render_didFetchResult h opts),
           wrapped := Some w, rendered := Some r\<rparr>"
    "res = (if render_didFetchResult h opts then Some w else None)"
  using assms
  by (auto simp: useBackgroundQuery_def split: prod.splits)

lemma render_post:
  assumes "useBackgroundQuery ser q opts qk (s, h) = ((res, r), (s', h'))" and "hook_ok (s, h)"
  shows "\<exists>w. wrapped h' = Some w \<and> w < length (wrappers s') \<and> wrappedRef (wrappers s' ! w) = r
       \<and> rendered h' = Some r
       \<and> didFetchResult h' = Some (render_didFetchResult h opts)
       \<and> res = (if render_didFetchResult h opts then Some w else None)
       \<and> length (wrappers s) < length (wrappers s')
       \<and> (case wrapped h of
             None \<Rightarrow> w = length (wrappers s)
           | Some w0 \<Rightarrow> if wrappedRef (wrappers s ! w0) = r then w = w0
                        else w = Suc (length (wrappers s)))"
proof -
  from assms(1) obtain s1 w s2 where
    g: "getQueryRef (cacheKey ser q (variables opts) qk) (watchQuery opts) s = (r, s1)"
    and rw: "render_wrapped r (s1, h) = (w, s2)"
    and s': "s' = render_options r w opts s2"
    and h': "h' = h\<lparr>didFetchResult := Some (render_didFetchResult h opts),
           wrapped := Some w, rendered := Some r\<rparr>"
    and res: "res = (if render_didFetchResult h opts then Some w else None)"
    by (rule useBackgroundQuery_unfold)
  have ws1: "wrappers s1 = wrappers s" using g by (rule getQueryRef_wrappers)
  then have ok1: "hook_ok (s1, h)" using assms(2) by (simp add: hook_ok_def split: option.splits)
  note fr = render_wrapped_frame[OF rw] and rr = render_wrapped_result[OF rw ok1]
  note ro = render_options_frame[of r w opts s2]
  have "wrapped h' = Some w" "rendered h' = Some r"
    "didFetchResult h' = Some (render_didFetchResult h opts)"
    using h' by simp_all
  moreover have "w < length (wrappers s')" using rr ro s' by simp
  moreover have "wrappedRef (wrappers s' ! w) = r" using rr ro s' by simp
  moreover have "length (wrappers s) < length (wrappers s')" using fr ro s' ws1 by simp
  moreover have "(case wrapped h of
        None \<Rightarrow> w = length (wrappers s)
      | Some w0 \<Rightarrow> if wrappedRef (wrappers s ! w0) = r then w = w0
                   else w = Suc (length (wrappers s)))"
    using rr[unfolded ws1] by simp
  ultimately show ?thesis using res by blast
qed

lemma render_hook_ok:
  assumes "useBackgroundQuery ser q opts qk st = (out, st')" and "hook_ok st"
  shows "hook_ok st'"
proof -
  obtain s h where st: "st = (s, h)" by (cases st)
  obtain s' h' where st': "st' = (s', h')" by (cases st')
  obtain res r where out: "out = (res, r)" by (cases out)
  from assms st st' out have "useBackgroundQuery ser q opts qk (s, h) = ((res, r), (s', h'))"
    and "hook_ok (s, h)" by simp_all
  then obtain w where "wrapped h' = Some w" "w < length (wrappers s')"
    using render_post by blast
  then show ?thesis using st' by (simp add: hook_ok_def)
qed

lemma commitEffect_frame:
  assumes "commitEffect (s, h) = (s', h')"
  shows "wrappers s' = wrappers s \<and> wrapped h' = wrapped h \<and> rendered h' = rendered h
       \<and> didFetchResult h' = didFetchResult h \<and> queryRefs s' = queryRefs s \<and> issued s' = issued s"
  using assms
  by (auto simp: commitEffect_def retainRef_def releaseRef_def Let_def
      split: option.splits prod.splits if_splits)

lemma fetchMore_frame:
  assumes "fetchMore (s, h) = (p, s', h')" and "rendered h = Some r"
  shows "wrapped h' = Some (length (wrappers s)) \<and> length (wrappers s') = Suc (length (wrappers s))
       \<and> (\<forall>i<length (wrappers s). wrappers s' ! i = wrappers s ! i)
       \<and> rendered h' = rendered h \<and> didFetchResult h' = didFetchResult h
       \<and> wrappedRef (wrappers s' ! length (wrappers s)) = r \<and> p = Some (issued s)
       \<and> issued s' = Suc (issued s) \<and> queryRefs s' = queryRefs s"
  using assms
  by (auto simp: fetchMore_def fetchMoreRef_def queryRef_fetchMore_def wrapQueryRef_def issue_def
      nth_append split: option.splits prod.splits)

lemma refetch_frame:
  assumes "refetch vs (s, h) = (p, s', h')" and "rendered h = Some r"
  shows "wrapped h' = Some (length (wrappers s)) \<and> length (wrappers s') = Suc (length (wrappers s))
       \<and> (\<forall>i<length (wrappers s). wrappers s' ! i = wrappers s ! i)
       \<and> rendered h' = rendered h \<and> didFetchResult h' = didFetchResult h
       \<and> wrappedRef (wrappers s' ! length (wrappers s)) = r \<and> p = Some (issued s)
       \<and> issued s' = Suc (issued s) \<and> queryRefs s' = queryRefs s"
  using assms
  by (auto simp: refetch_def refetchRef_def queryRef_refetch_def wrapQueryRef_def issue_def
      nth_append split: option.splits prod.splits)

lemma fetch_unrendered:
  "rendered h = None \<Longrightarrow> fetchMore (s, h) = (None, s, h) \<and> refetch vs (s, h) = (None, s, h)"
  by (simp add: fetchMore_def refetch_def)

lemma step_didFetchResult:
  assumes "consumer_step ser e (s, h) = (s', h')"
  shows "didFetchResult h' = Some True \<longleftrightarrow> didFetchResult h = Some True \<or> enables e"
proof (cases e)
  case (Render q opts qk)
  obtain res r where "useBackgroundQuery ser q opts qk (s, h) = ((res, r), (s', h'))"
    using assms Render by (cases "useBackgroundQuery ser q opts qk (s, h)") auto
  then have "didFetchResult h' = Some (render_didFetchResult h opts)"
    by (rule useBackgroundQuery_unfold) simp
  then show ?thesis using Render
    by (auto simp: render_didFetchResult_def split: option.splits)
next
  case Commit
  then show ?thesis using assms commitEffect_frame[of s h s' h'] by simp
next
  case FetchMore
  then show ?thesis using assms
    by (cases "rendered h"; cases "fetchMore (s, h)")
      (auto simp: fetch_unrendered dest: fetchMore_frame)
next
  case (Refetch vs)
  then show ?thesis using assms
    by (cases "rendered h"; cases "refetch vs (s, h)")
      (auto simp: fetch_unrendered dest: refetch_frame)
qed

lemma run_didFetchResult:
  "didFetchResult (snd (consumer_run ser evs st)) = Some True
     \<longleftrightarrow> didFetchResult (snd st) = Some True \<or> list_ex enables evs"
  unfolding consumer_run_def
proof (induction evs arbitrary: st)
  case Nil
  then show ?case by simp
next
  case (Cons e evs)
  obtain s h where st: "st = (s, h)" by (cases st)
  obtain s' h' where st': "consumer_step ser e (s, h) = (s', h')"
    by (cases "consumer_step ser e (s, h)")
  show ?case using Cons[of "(s', h')"] step_didFetchResult[OF st'] st st' by auto
qed

lemma between_step:
  assumes "between wA rA b st" and "\<not> is_render e"
  shows "between wA rA (b \<or> is_fetch e) (consumer_step ser e st)"
proof -
  obtain s h where st: "st = (s, h)" by (cases st)
  show ?thesis
  proof (cases e)
    case (Render q opts qk)
    then show ?thesis using assms by simp
  next
    case Commit
    obtain s' h' where c: "commitEffect (s, h) = (s', h')" by (cases "commitEffect (s, h)")
    show ?thesis using assms(1) commitEffect_frame[OF c] c Commit st
      by (auto simp: between_def)
  next
    case FetchMore
    obtain p s' h' where f: "fetchMore (s, h) = (p, s', h')" by (cases "fetchMore (s, h)")
    have r: "rendered h = Some rA" using assms(1) st by (simp add: between_def)
    show ?thesis using assms(1) fetchMore_frame[OF f r] f FetchMore st
      by (auto simp: between_def)
  next
    case (Refetch vs)
    obtain p s' h' where f: "refetch vs (s, h) = (p, s', h')" by (cases "refetch vs (s, h)")
    have r: "rendered h = Some rA" using assms(1) st by (simp add: between_def)
    show ?thesis using assms(1) refetch_frame[OF f r] f Refetch st
      by (auto simp: between_def)
  qed
qed

lemma between_run:
  assumes "between wA rA b st" and "\<not> list_ex is_render evs"
  shows "between wA rA (b \<or> list_ex is_fetch evs) (consumer_run ser evs st)"
  using assms unfolding consumer_run_def
proof (induction evs arbitrary: st b)
  case Nil
  then show ?case by simp
next
  case (Cons e evs)
  have "between wA rA (b \<or> is_fetch e) (consumer_step ser e st)"
    using Cons.prems by (intro between_step) simp_all
  then have "between wA rA ((b \<or> is_fetch e) \<or> list_ex is_fetch evs)
      (fold (consumer_step ser) evs (consumer_step ser e st))"
    using Cons.prems by (intro Cons.IH) simp_all
  then show ?case by simp
qed

lemma render_between:
  assumes "hook_ok (s0, h0)"
    and "useBackgroundQuery ser q opts qk (s0, h0) = ((Some wA, rA), stA)"
  shows "between wA rA False stA"
proof -
  obtain sA hA where stA: "stA = (sA, hA)" by (cases stA)
  from assms(2) stA have A: "useBackgroundQuery ser q opts qk (s0, h0) = ((Some wA, rA), (sA, hA))"
    by simp
  from render_post[OF A assms(1)] obtain w where w: "wrapped hA = Some w" "w < length (wrappers sA)"
    "wrappedRef (wrappers sA ! w) = rA" "rendered hA = Some rA"
    "didFetchResult hA = Some (render_didFetchResult h0 opts)"
    "Some wA = (if render_didFetchResult h0 opts then Some w else None)"
    by blast
  from w(6) have "render_didFetchResult h0 opts" "w = wA" by (auto split: if_splits)
  then show ?thesis using w(1-5) stA by (simp add: between_def)
qed



subsection \<open>The examples\<close>

lemmas eval_defs = demo_render_def demo_mounted_def useBackgroundQuery_def getQueryRef_def
  cacheKey_def disambiguator_def canonicalStringify_def watchQuery_def issue_def newQueryReference_def
  render_wrapped_def wrapQueryRef_def unwrapQueryRef_def render_options_def didChangeOptions_def
  applyOptionsRef_def applyOptions_def updateWrappedQueryRef_def render_didFetchResult_def
  demo_options_def empty_world_def mount_def fetchMore_def fetchMoreRef_def queryRef_fetchMore_def
  refetch_def refetchRef_def queryRef_refetch_def commitEffect_def retainRef_def retain_def
  releaseRef_def release_def consumer_run_def hook_ok_def Let_def

lemma demo_mounted_render:
  "useBackgroundQuery demo_serialize 0 (demo_options CacheFirst) None (empty_world, mount)
     = ((Some 0, 0), demo_mounted)"
proof -
  have "fst (demo_render CacheFirst (empty_world, mount)) = (Some 0, 0)"
    by (simp add: eval_defs)
  then show ?thesis by (simp add: prod_eq_iff demo_mounted_def demo_render_def)
qed

lemma demo_hook_ok: "hook_ok (empty_world, mount)"
  by (simp add: hook_ok_def mount_def)

lemma demo_committed_pair: "consumer_run demo_serialize [Commit] demo_mounted = (fst demo_committed, snd demo_committed)"
  by (simp add: demo_committed_def)

section \<open>Claims\<close>

text \<open>
  C1.  When several callers ask the cache for the same key within one tick (no disposal
  in between), every caller receives the same query reference, and the factory (the fetch
  engine's invocation) runs once if the key was absent at the start of the tick and not at
  all if it was present: no two callers observe the same miss.
\<close>

theorem getQueryRef_deduplicates:
  assumes "getQueryRefs k (map watchQuery (opts # optss)) s = (rs, s')"
  shows "rs = replicate (Suc (length optss)) (hd rs)
       \<and> issued s' = issued s + (if queryRefs s k = None then 1 else 0)
       \<and> length (refs s') = length (refs s) + (if queryRefs s k = None then 1 else 0)"
proof (cases "queryRefs s k")
  case None
  let ?s1 = "snd (getQueryRef k (watchQuery opts) s)"
  have "queryRefs ?s1 k = Some (length (refs s))"
    using None by (simp add: getQueryRef_miss)
  then have "getQueryRefs k (map watchQuery optss) ?s1 = (replicate (length optss) (length (refs s)), ?s1)"
    using getQueryRefs_hit[of ?s1 k "length (refs s)" "map watchQuery optss"] by simp
  then show ?thesis using assms None by (auto simp: getQueryRef_miss)
next
  case (Some r)
  then show ?thesis
    using assms getQueryRefs_hit[of s k r "map watchQuery (opts # optss)"] by auto
qed

text \<open>Two callers ask an empty cache for the same key: one reference, one fetch.\<close>

theorem getQueryRef_deduplicates_witness:
  "fst (getQueryRefs [KDocument 0] (map watchQuery [demo_options CacheFirst, demo_options NetworkOnly])
          empty_world) = [0, 0]
   \<and> issued (snd (getQueryRefs [KDocument 0]
          (map watchQuery [demo_options CacheFirst, demo_options NetworkOnly]) empty_world)) = 1
   \<and> length (refs (snd (getQueryRefs [KDocument 0]
          (map watchQuery [demo_options CacheFirst, demo_options NetworkOnly]) empty_world))) = 1"
  using getQueryRef_deduplicates [of "[KDocument 0]" "demo_options CacheFirst"
      "[demo_options NetworkOnly]" empty_world
      "fst (getQueryRefs [KDocument 0]
          (map watchQuery [demo_options CacheFirst, demo_options NetworkOnly]) empty_world)"
      "snd (getQueryRefs [KDocument 0]
          (map watchQuery [demo_options CacheFirst, demo_options NetworkOnly]) empty_world)"]
  by (simp add: eval_defs)

text \<open>
  C2, as amended.  For two successive renders of one mounted hook, the first of which
  exposed a wrapper: the second render exposes a wrapper, and it is the same wrapper if and
  only if the query reference is unchanged and neither \<^verbatim>\<open>fetchMore\<close> nor \<^verbatim>\<open>refetch\<close> was
  called in between.  So whenever the query reference differs the wrapper's identity
  changes; and it also changes, with the same query reference, after a call of
  \<^verbatim>\<open>fetchMore\<close> or \<^verbatim>\<open>refetch\<close>.
\<close>

theorem wrapper_identity_between_renders:
  assumes "hook_ok st0"
    and "useBackgroundQuery ser qa oa ka st0 = ((Some wA, rA), stA)"
    and "\<not> list_ex is_render evs"
    and "useBackgroundQuery ser qb ob kb (consumer_run ser evs stA) = ((resB, rB), stB)"
  shows "\<exists>wB. resB = Some wB \<and> (wB = wA \<longleftrightarrow> rB = rA \<and> \<not> list_ex is_fetch evs)"
proof -
  obtain s0 h0 where st0: "st0 = (s0, h0)" by (cases st0)
  obtain s h where st: "consumer_run ser evs stA = (s, h)" by (cases "consumer_run ser evs stA")
  obtain sB hB where stB: "stB = (sB, hB)" by (cases stB)
  have "between wA rA False stA" using assms(1,2) st0 by (auto intro: render_between)
  then have bt: "between wA rA (list_ex is_fetch evs) (s, h)"
    using between_run[OF _ assms(3), of wA rA False stA ser] st by simp
  then have ok: "hook_ok (s, h)" by (auto simp: between_def hook_ok_def split: if_splits)
  from assms(4) st stB have B: "useBackgroundQuery ser qb ob kb (s, h) = ((resB, rB), (sB, hB))"
    by simp
  from render_post[OF B ok] obtain wB where wB:
    "resB = (if render_didFetchResult h ob then Some wB else None)"
    "(case wrapped h of
        None \<Rightarrow> wB = length (wrappers s)
      | Some w0 \<Rightarrow> if wrappedRef (wrappers s ! w0) = rB then wB = w0
                   else wB = Suc (length (wrappers s)))"
    by blast
  have "render_didFetchResult h ob" using bt by (simp add: between_def render_didFetchResult_def)
  then have res: "resB = Some wB" using wB(1) by simp
  have "wB = wA \<longleftrightarrow> rB = rA \<and> \<not> list_ex is_fetch evs"
  proof (cases "list_ex is_fetch evs")
    case True
    then obtain w' where "wrapped h = Some w'" "wA < w'" "w' < length (wrappers s)"
      using bt by (auto simp: between_def)
    then show ?thesis using wB(2) True by (auto split: if_splits)
  next
    case False
    then have "wrapped h = Some wA" "wA < length (wrappers s)" "wrappedRef (wrappers s ! wA) = rA"
      using bt by (auto simp: between_def)
    then show ?thesis using wB(2) False by (auto split: if_splits)
  qed
  then show ?thesis using res by blast
qed

text \<open>A mount, the effect, and a second render with the same options: the same wrapper.\<close>

theorem wrapper_identity_between_renders_witness:
  "fst (fst (demo_render CacheFirst demo_committed)) = Some 0
   \<and> snd (fst (demo_render CacheFirst demo_committed)) = 0"
proof -
  have r: "snd (fst (demo_render CacheFirst demo_committed)) = 0"
    by (simp add: demo_committed_def eval_defs)
  have "\<exists>wB. fst (fst (demo_render CacheFirst demo_committed)) = Some wB
      \<and> (wB = 0 \<longleftrightarrow> snd (fst (demo_render CacheFirst demo_committed)) = 0 \<and> \<not> list_ex is_fetch [Commit])"
    using wrapper_identity_between_renders [of "(empty_world, mount)" demo_serialize 0
        "demo_options CacheFirst" None 0 0 demo_mounted "[Commit]" 0 "demo_options CacheFirst" None
        "fst (fst (demo_render CacheFirst demo_committed))"
        "snd (fst (demo_render CacheFirst demo_committed))"
        "snd (demo_render CacheFirst demo_committed)", OF demo_hook_ok demo_mounted_render]
    by (simp add: demo_committed_def demo_render_def)
  then show ?thesis using r by auto
qed

text \<open>
  C2 as stated fails: a mount, a call of \<^verbatim>\<open>fetchMore\<close>, and the next render.  The query
  reference is the same in both renders and the wrapper is not.
\<close>

theorem wrapper_identity_fetchMore_counterexample:
  "snd (fst (demo_render CacheFirst (snd (fetchMore demo_mounted))))
     = snd (fst (demo_render CacheFirst (empty_world, mount)))
   \<and> fst (fst (demo_render CacheFirst (snd (fetchMore demo_mounted))))
     \<noteq> fst (fst (demo_render CacheFirst (empty_world, mount)))"
  by (simp add: eval_defs)

text \<open>
  C3, as amended.  The re-fetch does not change the wrapper's identity.  Take a render
  from a state in which the wrapper held by the hook and the render's query reference
  exist.  If the Option-Change Detector reports a change for the render's query reference,
  then the reference is one that was found in the cache, \<^verbatim>\<open>applyOptions\<close> issues one new
  fetch and replaces the reference's current promise, and the hook stores the new promise
  in place (\<^verbatim>\<open>updateWrappedQueryRef\<close>) in the wrapper of this render.  That wrapper wraps
  the render's query reference, and it is the very wrapper the hook's state held before
  the render (the one of the previous render, or the one that a call of \<^verbatim>\<open>fetchMore\<close> or
  \<^verbatim>\<open>refetch\<close> has stored since) if and only if that wrapper wraps the same query
  reference.  The render returns this wrapper when \<^verbatim>\<open>didFetchResult\<close> is set, and
  \<^verbatim>\<open>undefined\<close> otherwise.
\<close>

theorem applyOptions_updates_wrapper_in_place:
  assumes "hook_ok (s, h)"
    and "useBackgroundQuery ser q opts qk (s, h) = ((res, r), (s', h'))"
    and "getQueryRef (cacheKey ser q (variables opts) qk) (watchQuery opts) s = (r, s1)"
    and "r < length (refs s1)"
  shows "didChangeOptions (refs s1 ! r) opts \<longrightarrow>
       s1 = s \<and> issued s' = Suc (issued s) \<and> currentPromise (refs s' ! r) = issued s
       \<and> (\<exists>w. wrapped h' = Some w
            \<and> res = (if render_didFetchResult h opts then Some w else None)
            \<and> wrappedRef (wrappers s' ! w) = r \<and> wrappedPromise (wrappers s' ! w) = issued s
            \<and> (\<forall>w0. wrapped h = Some w0 \<longrightarrow> (w = w0 \<longleftrightarrow> wrappedRef (wrappers s ! w0) = r)))"
proof
  assume ch: "didChangeOptions (refs s1 ! r) opts"
  let ?k = "cacheKey ser q (variables opts) qk"
  have hit: "queryRefs s ?k \<noteq> None"
  proof
    assume "queryRefs s ?k = None"
    then have "refs s1 ! r = newQueryReference ?k opts (issued s)"
      using getQueryRef_created[OF assms(3)] by blast
    then show False using ch by (simp add: didChangeOptions_def newQueryReference_def)
  qed
  then have s1: "s1 = s" using assms(3) by (auto simp: getQueryRef_def split: option.splits)
  from assms(2) obtain s1' w s2 where
    g: "getQueryRef ?k (watchQuery opts) s = (r, s1')"
    and rw: "render_wrapped r (s1', h) = (w, s2)"
    and s': "s' = render_options r w opts s2"
    and h': "h' = h\<lparr>didFetchResult := Some (render_didFetchResult h opts),
           wrapped := Some w, rendered := Some r\<rparr>"
    and res: "res = (if render_didFetchResult h opts then Some w else None)"
    by (rule useBackgroundQuery_unfold)
  have e: "s1' = s" using g assms(3) s1 by simp
  note fr = render_wrapped_frame[OF rw[unfolded e]]
  note rr = render_wrapped_result[OF rw[unfolded e] assms(1)]
  have "didChangeOptions (refs s2 ! r) opts" "r < length (refs s2)" "w < length (wrappers s2)"
    using fr rr assms(4) ch s1 by simp_all
  then have c: "issued s' = Suc (issued s2)" "currentPromise (refs s' ! r) = issued s2"
       "wrappedPromise (wrappers s' ! w) = issued s2"
       "wrappedRef (wrappers s' ! w) = wrappedRef (wrappers s2 ! w)"
    using render_options_changed[of s2 r opts w] s' by simp_all
  have i: "issued s2 = issued s" using fr by simp
  have wr: "wrappedRef (wrappers s2 ! w) = r" using rr by simp
  have id: "\<forall>w0. wrapped h = Some w0 \<longrightarrow> (w = w0 \<longleftrightarrow> wrappedRef (wrappers s ! w0) = r)"
    using rr assms(1) by (auto simp: hook_ok_def split: option.splits if_splits)
  have "wrapped h' = Some w" using h' by simp
  then show "s1 = s \<and> issued s' = Suc (issued s) \<and> currentPromise (refs s' ! r) = issued s
       \<and> (\<exists>w. wrapped h' = Some w
            \<and> res = (if render_didFetchResult h opts then Some w else None)
            \<and> wrappedRef (wrappers s' ! w) = r \<and> wrappedPromise (wrappers s' ! w) = issued s
            \<and> (\<forall>w0. wrapped h = Some w0 \<longrightarrow> (w = w0 \<longleftrightarrow> wrappedRef (wrappers s ! w0) = r)))"
    using s1 c i wr id res by auto
qed

text \<open>A mount with one fetch policy, the effect, and a render with another.\<close>

theorem applyOptions_updates_wrapper_in_place_witness:
  "didChangeOptions (refs (fst demo_committed) ! 0) (demo_options NetworkOnly)
   \<and> fst (fst (demo_render NetworkOnly demo_committed)) = Some 0
   \<and> issued (fst (snd (demo_render NetworkOnly demo_committed))) = 2
   \<and> currentPromise (refs (fst (snd (demo_render NetworkOnly demo_committed))) ! 0) = 1
   \<and> wrappedPromise (wrappers (fst (snd (demo_render NetworkOnly demo_committed))) ! 0) = 1"
proof -
  have ok: "hook_ok (fst demo_committed, snd demo_committed)"
    by (simp add: demo_committed_def eval_defs)
  have ex: "0 < length (refs (fst demo_committed))"
    by (simp add: demo_committed_def eval_defs)
  have ch: "didChangeOptions (refs (fst demo_committed) ! 0) (demo_options NetworkOnly)"
    by (simp add: demo_committed_def eval_defs)
  have g: "getQueryRef (cacheKey demo_serialize 0 (variables (demo_options NetworkOnly)) None)
      (watchQuery (demo_options NetworkOnly)) (fst demo_committed) = (0, fst demo_committed)"
    by (simp add: demo_committed_def eval_defs)
  have "snd (fst (demo_render NetworkOnly demo_committed)) = 0"
    by (simp add: demo_committed_def eval_defs)
  then have b: "useBackgroundQuery demo_serialize 0 (demo_options NetworkOnly) None
      (fst demo_committed, snd demo_committed)
      = ((fst (fst (demo_render NetworkOnly demo_committed)), 0),
         (fst (snd (demo_render NetworkOnly demo_committed)),
          snd (snd (demo_render NetworkOnly demo_committed))))"
    by (simp add: prod_eq_iff demo_render_def)
  have i: "issued (fst demo_committed) = 1" "wrapped (snd demo_committed) = Some 0"
    "wrappedRef (wrappers (fst demo_committed) ! 0) = 0"
    "render_didFetchResult (snd demo_committed) (demo_options NetworkOnly)"
    by (simp_all add: demo_committed_def eval_defs)
  show ?thesis
    using applyOptions_updates_wrapper_in_place [OF ok b g ex] ch i
    by auto
qed

text \<open>
  C3 as stated fails: a mount with one fetch policy and a render with another.  The
  detector reports the change, the fetch engine is invoked again, and the consumer gets the
  wrapper it had.
\<close>

theorem applyOptions_identity_counterexample:
  "didChangeOptions (refs (fst demo_mounted) ! 0) (demo_options NetworkOnly)
   \<and> snd (fst (demo_render NetworkOnly demo_mounted))
       = snd (fst (demo_render CacheFirst (empty_world, mount)))
   \<and> issued (fst (snd (demo_render NetworkOnly demo_mounted))) = Suc (issued (fst demo_mounted))
   \<and> fst (fst (demo_render NetworkOnly demo_mounted))
       = fst (fst (demo_render CacheFirst (empty_world, mount)))"
  by (simp add: eval_defs)




text \<open>
  C6.  At every state a reference reaches, for every release callback that \<open>retain\<close> has
  returned: invoking it decrements the retain count by one if it has not run before and
  by nothing otherwise; any later invocation, after any further calls, changes nothing;
  the disposer is never invoked more than once; and when the retain count is back at 0,
  the disposal leaves the disposer invoked exactly once.
\<close>

theorem release_idempotent:
  assumes "q = run_events evs (newQueryReference k opts p)"
    and "i < length (released q)"
    and "q' = run_events evs' (release i q)"
  shows "retainCount (release i q) = retainCount q - (if released q ! i then 0 else 1)
       \<and> release i q' = q'
       \<and> disposerCalls q' \<le> 1
       \<and> (retainCount q' = 0 \<longrightarrow> disposerCalls (dispose q') = 1)"
proof -
  have inv: "ref_inv q" using assms(1) by (simp add: ref_inv_run ref_inv_new)
  then have inv': "ref_inv q'" using assms(3) by (simp add: ref_inv_run ref_inv_release)
  have "i < length (released (release i q))" "released (release i q) ! i"
    using assms(2) by (simp_all add: length_released_release release_released)
  then have rel: "i < length (released q')" "released q' ! i"
    using released_mono_run[of i "release i q" evs'] assms(3) by simp_all
  then have ne: "released q' \<noteq> []" by auto
  have "disposerCalls q' \<le> 1" using inv' by (rule ref_inv_disposer_once)
  moreover have "retainCount q' = 0 \<longrightarrow> disposerCalls (dispose q') = 1"
    using inv' ne by (simp add: ref_inv_dispose_zero)
  ultimately show ?thesis
    using assms(2) rel(2) by (simp add: release_decrement release_noop)
qed

text \<open>One retain, and its release callback invoked twice.\<close>

theorem release_idempotent_witness:
  "retainCount (release 0 (run_events [Retain] demo_reference)) = 0
   \<and> release 0 (run_events [Release 0] (release 0 (run_events [Retain] demo_reference)))
       = run_events [Release 0] (release 0 (run_events [Retain] demo_reference))
   \<and> disposerCalls (dispose (run_events [Release 0] (release 0 (run_events [Retain] demo_reference)))) = 1"
proof -
  have i: "0 < length (released (run_events [Retain] demo_reference))"
    by (simp add: run_events_def retain_def demo_reference_def newQueryReference_def)
  have c: "retainCount (run_events [Retain] demo_reference) = 1"
    "\<not> released (run_events [Retain] demo_reference) ! 0"
    "retainCount (run_events [Release 0] (release 0 (run_events [Retain] demo_reference))) = 0"
    by (simp_all add: run_events_def retain_def release_def demo_reference_def newQueryReference_def)
  show ?thesis
    using release_idempotent [of "run_events [Retain] demo_reference" "[Retain]" "[]"
        "demo_options CacheFirst" 0 0
        "run_events [Release 0] (release 0 (run_events [Retain] demo_reference))" "[Release 0]"] i c
    by (simp add: demo_reference_def)
qed

text \<open>
  C7.  Permuting the entries of a variables object (whose keys are distinct, as the keys
  of an object are) does not change the key built from it.  For the same query and
  variables, the keys built with two \<^verbatim>\<open>queryKey\<close> values are equal only when the two
  values denote the same disambiguator sequence: two arrays give the same key only if
  they are equal, two scalars only if they are equal, an array and a scalar only if the
  array is the one-element array of that scalar, an array and an absent \<^verbatim>\<open>queryKey\<close>
  only if the array is empty, and a scalar and an absent \<^verbatim>\<open>queryKey\<close> never.
\<close>

theorem cacheKey_canonical:
  "(distinct (map fst m) \<and> mset m' = mset m \<longrightarrow>
      cacheKey serialize q (Some m') qk = cacheKey serialize q (Some m) qk)
   \<and> (cacheKey serialize q v (Some (QKArray d1)) = cacheKey serialize q v (Some (QKArray d2))
        \<longleftrightarrow> d1 = d2)
   \<and> (cacheKey serialize q v (Some (QKScalar x)) = cacheKey serialize q v (Some (QKScalar y))
        \<longleftrightarrow> x = y)
   \<and> (cacheKey serialize q v (Some (QKArray d)) = cacheKey serialize q v (Some (QKScalar x))
        \<longleftrightarrow> d = [x])
   \<and> (cacheKey serialize q v (Some (QKArray d)) = cacheKey serialize q v None \<longleftrightarrow> d = [])
   \<and> cacheKey serialize q v (Some (QKScalar x)) \<noteq> cacheKey serialize q v None"
  using canonicalStringify_permutation[of m m' serialize]
  by (auto simp: cacheKey_def disambiguator_def inj_map_eq_map inj_on_def)

text \<open>
  The variables \<^verbatim>\<open>{a: 1, b: 2}\<close> and \<^verbatim>\<open>{b: 2, a: 1}\<close>; the query keys \<^verbatim>\<open>"x"\<close> and \<^verbatim>\<open>"y"\<close>,
  \<^verbatim>\<open>["x"]\<close> and \<^verbatim>\<open>["y"]\<close>, and no query key.
\<close>

theorem cacheKey_canonical_witness:
  "cacheKey demo_serialize 0 (Some [(''b'', Num 2), (''a'', Num 1)]) None
     = cacheKey demo_serialize 0 (Some [(''a'', Num 1), (''b'', Num 2)]) None
   \<and> cacheKey demo_serialize 0 None (Some (QKScalar (Str ''x'')))
       \<noteq> cacheKey demo_serialize 0 None (Some (QKScalar (Str ''y'')))
   \<and> cacheKey demo_serialize 0 None (Some (QKArray [Str ''x'']))
       \<noteq> cacheKey demo_serialize 0 None (Some (QKArray [Str ''y'']))
   \<and> cacheKey demo_serialize 0 None (Some (QKScalar (Str ''x''))) \<noteq> cacheKey demo_serialize 0 None None"
  using cacheKey_canonical [of "[(''a'', Num 1), (''b'', Num 2)]" "[(''b'', Num 2), (''a'', Num 1)]"
      demo_serialize 0 None None "[Str ''x'']" "[Str ''y'']" "Str ''x''" "Str ''y''"]
  by simp

text \<open>
  C8.  In a render that finds its query reference in the cache: if the detector reports
  no change, \<^verbatim>\<open>applyOptions\<close> would return the existing promise with nothing changed, and
  the render issues no fetch, leaves every reference as it was (current promise and last
  applied options included) and leaves the wrapper it held for the reference, with its
  promise, as it was; only if the detector reports a change is the fetch engine invoked,
  once, the reference's current promise and last applied options replaced, and the new
  promise returned and stored in the wrapper.
\<close>

theorem applyOptions_only_on_change:
  assumes "hook_ok (s, h)"
    and "queryRefs s (cacheKey ser q (variables opts) qk) = Some r"
    and "r < length (refs s)"
    and "useBackgroundQuery ser q opts qk (s, h) = ((res, r'), (s', h'))"
  shows "r' = r
       \<and> (\<not> didChangeOptions (refs s ! r) opts \<longrightarrow>
            applyOptions opts (issued s, refs s ! r) = (currentPromise (refs s ! r), issued s, refs s ! r)
            \<and> issued s' = issued s \<and> refs s' = refs s
            \<and> (\<forall>w0. wrapped h = Some w0 \<and> wrappedRef (wrappers s ! w0) = r \<longrightarrow>
                  wrapped h' = Some w0 \<and> wrappers s' ! w0 = wrappers s ! w0))
       \<and> (didChangeOptions (refs s ! r) opts \<longrightarrow>
            applyOptions opts (issued s, refs s ! r) =
              (issued s, Suc (issued s),
               (refs s ! r)\<lparr>currentPromise := issued s, lastAppliedOptions := opts\<rparr>)
            \<and> issued s' = Suc (issued s)
            \<and> refs s' = (refs s)[r := (refs s ! r)\<lparr>currentPromise := issued s, lastAppliedOptions := opts\<rparr>]
            \<and> (\<exists>w. wrapped h' = Some w \<and> wrappedPromise (wrappers s' ! w) = issued s))"
proof -
  from assms(4) obtain s1 w s2 where
    g: "getQueryRef (cacheKey ser q (variables opts) qk) (watchQuery opts) s = (r', s1)"
    and rw: "render_wrapped r' (s1, h) = (w, s2)"
    and s': "s' = render_options r' w opts s2"
    and h': "wrapped h' = Some w"
    by (rule useBackgroundQuery_unfold) simp
  have s1: "r' = r" "s1 = s" using g assms(2) by (simp_all add: getQueryRef_hit)
  note fr = render_wrapped_frame[OF rw[unfolded s1]]
  note rr = render_wrapped_result[OF rw[unfolded s1] assms(1)]
  have w: "w < length (wrappers s2)" using rr by simp
  have r2: "refs s2 = refs s" "issued s2 = issued s" using fr by simp_all
  have keep: "w = w0 \<and> wrappers s2 ! w0 = wrappers s ! w0"
    if "wrapped h = Some w0" "wrappedRef (wrappers s ! w0) = r" for w0
  proof -
    have "w0 < length (wrappers s)" using assms(1) that(1) by (simp add: hook_ok_def)
    then show ?thesis using rr fr that by simp
  qed
  have a: "\<not> didChangeOptions (refs s ! r) opts \<longrightarrow>
            applyOptions opts (issued s, refs s ! r) = (currentPromise (refs s ! r), issued s, refs s ! r)
            \<and> issued s' = issued s \<and> refs s' = refs s
            \<and> (\<forall>w0. wrapped h = Some w0 \<and> wrappedRef (wrappers s ! w0) = r \<longrightarrow>
                  wrapped h' = Some w0 \<and> wrappers s' ! w0 = wrappers s ! w0)"
  proof (intro impI)
    assume nc: "\<not> didChangeOptions (refs s ! r) opts"
    then have e: "s' = s2" using s' s1 r2 by (simp add: render_options_def)
    have "applyOptions opts (issued s, refs s ! r) = (currentPromise (refs s ! r), issued s, refs s ! r)"
      using nc by (simp add: applyOptions_def)
    moreover have "\<forall>w0. wrapped h = Some w0 \<and> wrappedRef (wrappers s ! w0) = r \<longrightarrow>
                  wrapped h' = Some w0 \<and> wrappers s' ! w0 = wrappers s ! w0"
      using keep h' unfolding e by blast
    ultimately show "applyOptions opts (issued s, refs s ! r) = (currentPromise (refs s ! r), issued s, refs s ! r)
            \<and> issued s' = issued s \<and> refs s' = refs s
            \<and> (\<forall>w0. wrapped h = Some w0 \<and> wrappedRef (wrappers s ! w0) = r \<longrightarrow>
                  wrapped h' = Some w0 \<and> wrappers s' ! w0 = wrappers s ! w0)"
      using r2 unfolding e by (intro conjI)
  qed
  have b: "didChangeOptions (refs s ! r) opts \<longrightarrow>
            applyOptions opts (issued s, refs s ! r) =
              (issued s, Suc (issued s),
               (refs s ! r)\<lparr>currentPromise := issued s, lastAppliedOptions := opts\<rparr>)
            \<and> issued s' = Suc (issued s)
            \<and> refs s' = (refs s)[r := (refs s ! r)\<lparr>currentPromise := issued s, lastAppliedOptions := opts\<rparr>]
            \<and> wrappedPromise (wrappers s' ! w) = issued s"
    using s' s1 r2 w
    by (simp add: applyOptions_def render_options_def applyOptionsRef_def issue_def
        updateWrappedQueryRef_def)
  show ?thesis using a b h' s1 by blast
qed

text \<open>A mount and a second render with the same options: no fetch, nothing changed.\<close>

theorem applyOptions_only_on_change_witness:
  "snd (fst (demo_render CacheFirst demo_mounted)) = 0
   \<and> issued (fst (snd (demo_render CacheFirst demo_mounted))) = issued (fst demo_mounted)
   \<and> refs (fst (snd (demo_render CacheFirst demo_mounted))) = refs (fst demo_mounted)"
proof -
  have ok: "hook_ok (fst demo_mounted, snd demo_mounted)"
    by (simp add: eval_defs)
  have hit: "queryRefs (fst demo_mounted)
      (cacheKey demo_serialize 0 (variables (demo_options CacheFirst)) None) = Some 0"
    by (simp add: eval_defs)
  have ex: "0 < length (refs (fst demo_mounted))"
    by (simp add: eval_defs)
  have b: "useBackgroundQuery demo_serialize 0 (demo_options CacheFirst) None
      (fst demo_mounted, snd demo_mounted)
      = ((fst (fst (demo_render CacheFirst demo_mounted)), snd (fst (demo_render CacheFirst demo_mounted))),
         (fst (snd (demo_render CacheFirst demo_mounted)), snd (snd (demo_render CacheFirst demo_mounted))))"
    by (simp add: demo_render_def)
  have nc: "\<not> didChangeOptions (refs (fst demo_mounted) ! 0) (demo_options CacheFirst)"
    by (simp add: eval_defs)
  show ?thesis
    using applyOptions_only_on_change [OF ok hit ex b] nc by simp
qed

text \<open>
  C9.  At every reachable state of the cache at most one live reference exists for each
  key, and the map holds live references under their own keys; and for every operation
  from such a state: an entry appears only where the key was absent, by a \<^verbatim>\<open>getQueryRef\<close>
  of that key, for a new reference; an entry disappears only by the disposal of the
  stored reference; and a stored reference is never found under another key afterwards.
\<close>

theorem cache_one_live_reference_per_key:
  assumes "s = reach ops" and "s' = exec a s"
  shows "(\<forall>r r'. live s r \<and> live s r' \<and> key (refs s ! r) = key (refs s ! r') \<longrightarrow> r = r')
       \<and> (\<forall>k r. queryRefs s k = Some r \<longrightarrow> live s r \<and> key (refs s ! r) = k)
       \<and> (\<forall>k r. queryRefs s' k = Some r \<and> queryRefs s k \<noteq> Some r \<longrightarrow>
             queryRefs s k = None \<and> (\<exists>f. a = GetQueryRef k f) \<and> r = length (refs s))
       \<and> (\<forall>k r. queryRefs s k = Some r \<and> queryRefs s' k \<noteq> Some r \<longrightarrow>
             a = DisposeOp r \<and> queryRefs s' k = None \<and> disposed (refs s' ! r))
       \<and> (\<forall>k k' r. queryRefs s k = Some r \<and> queryRefs s' k' = Some r \<longrightarrow> k' = k)"
proof -
  have inv: "cache_inv s" using assms(1) by (simp add: cache_inv_reach)
  have c1: "\<forall>r r'. live s r \<and> live s r' \<and> key (refs s ! r) = key (refs s ! r') \<longrightarrow> r = r'"
  proof (intro allI impI, elim conjE)
    fix r r'
    assume l: "live s r" "live s r'" and k: "key (refs s ! r) = key (refs s ! r')"
    have e1: "queryRefs s (key (refs s ! r)) = Some r"
      using inv l(1) unfolding cache_inv_def by blast
    have e2: "queryRefs s (key (refs s ! r')) = Some r'"
      using inv l(2) unfolding cache_inv_def by blast
    from e1[unfolded k] e2 have "Some r = Some r'" by (rule trans[OF sym])
    then show "r = r'" by (rule option.inject[THEN iffD1])
  qed
  have reg: "queryRefs s k = Some r \<Longrightarrow> live s r \<and> key (refs s ! r) = k" for k r
    using inv by (simp add: cache_inv_def)
  then have c2: "\<forall>k r. queryRefs s k = Some r \<longrightarrow> live s r \<and> key (refs s ! r) = k"
    by (intro allI impI)
  have c3: "\<forall>k r. queryRefs s' k = Some r \<and> queryRefs s k \<noteq> Some r \<longrightarrow>
             queryRefs s k = None \<and> (\<exists>f. a = GetQueryRef k f) \<and> r = length (refs s)"
  proof (intro allI impI, elim conjE)
    fix k r
    assume "queryRefs s' k = Some r" and "queryRefs s k \<noteq> Some r"
    then show "queryRefs s k = None \<and> (\<exists>f. a = GetQueryRef k f) \<and> r = length (refs s)"
      unfolding assms(2) by (rule exec_added)
  qed
  have c4: "\<forall>k r. queryRefs s k = Some r \<and> queryRefs s' k \<noteq> Some r \<longrightarrow>
             a = DisposeOp r \<and> queryRefs s' k = None \<and> disposed (refs s' ! r)"
  proof (intro allI impI, elim conjE)
    fix k r
    assume "queryRefs s k = Some r" and "queryRefs s' k \<noteq> Some r"
    then show "a = DisposeOp r \<and> queryRefs s' k = None \<and> disposed (refs s' ! r)"
      unfolding assms(2) by (rule exec_removed)
  qed
  have c5: "\<forall>k k' r. queryRefs s k = Some r \<and> queryRefs s' k' = Some r \<longrightarrow> k' = k"
  proof (intro allI impI, elim conjE)
    fix k k' r
    assume a1: "queryRefs s k = Some r" and a2: "queryRefs s' k' = Some r"
    have lr: "live s r" "key (refs s ! r) = k" using reg[OF a1] by simp_all
    show "k' = k"
    proof (cases "queryRefs s k' = Some r")
      case True
      then show ?thesis using reg[of k' r] lr by simp
    next
      case False
      then have "r = length (refs s)" using exec_added[of a s k' r] a2 assms(2) by simp
      then show ?thesis using lr by (simp add: live_def)
    qed
  qed
  show ?thesis by (intro conjI c1 c2 c3 c4 c5)
qed

text \<open>A reference is created, retained and released; its disposal removes the entry.\<close>

theorem cache_one_live_reference_per_key_witness:
  "queryRefs (reach demo_ops) [KDocument 0] = Some 0
   \<and> live (reach demo_ops) 0
   \<and> queryRefs (exec (DisposeOp 0) (reach demo_ops)) [KDocument 0] = None
   \<and> disposed (refs (exec (DisposeOp 0) (reach demo_ops)) ! 0)"
proof -
  have a: "queryRefs (reach demo_ops) [KDocument 0] = Some 0"
    by (simp add: demo_ops_def reach_def eval_defs)
  have b: "queryRefs (exec (DisposeOp 0) (reach demo_ops)) [KDocument 0] \<noteq> Some 0"
    by (simp add: demo_ops_def reach_def disposeRef_def dispose_def cache_remove_def eval_defs)
  show ?thesis
    using cache_one_live_reference_per_key [OF refl refl, of demo_ops "DisposeOp 0"] a b
    by blast
qed

text \<open>
  C10.  From the mount on, a render returns a defined query ref if and only if this
  render or an earlier one had a fetch policy other than \<^verbatim>\<open>"standby"\<close>: undefined on every
  render before the first such render, defined on every render from then on.
\<close>

theorem didFetchResult_monotone:
  "fst (fst (useBackgroundQuery ser q opts qk (consumer_run ser evs (s0, mount)))) \<noteq> None
     \<longleftrightarrow> fetchPolicy opts \<noteq> Standby \<or> list_ex enables evs"
proof -
  obtain s h where st: "consumer_run ser evs (s0, mount) = (s, h)"
    by (cases "consumer_run ser evs (s0, mount)")
  have "didFetchResult h = Some True \<longleftrightarrow> list_ex enables evs"
    using run_didFetchResult[of ser evs "(s0, mount)"] st by (simp add: mount_def)
  moreover have "fst (fst (useBackgroundQuery ser q opts qk (s, h))) \<noteq> None
      \<longleftrightarrow> render_didFetchResult h opts"
    by (simp add: useBackgroundQuery_def split: prod.splits)
  moreover have "render_didFetchResult h opts
      \<longleftrightarrow> didFetchResult h = Some True \<or> fetchPolicy opts \<noteq> Standby"
    by (auto simp: render_didFetchResult_def split: option.splits)
  ultimately show ?thesis using st by auto
qed

text \<open>
  A mount in standby and an enabled render, then a render in standby again: defined; the
  first render of a mount in standby: undefined.
\<close>

theorem didFetchResult_monotone_witness:
  "fst (fst (useBackgroundQuery demo_serialize 0 (demo_options Standby) None
       (consumer_run demo_serialize demo_history (empty_world, mount)))) \<noteq> None
   \<and> fst (fst (useBackgroundQuery demo_serialize 0 (demo_options Standby) None
       (consumer_run demo_serialize [] (empty_world, mount)))) = None"
  using didFetchResult_monotone [of demo_serialize 0 "demo_options Standby" None demo_history empty_world]
    didFetchResult_monotone [of demo_serialize 0 "demo_options Standby" None "[]" empty_world]
  by (simp add: demo_history_def demo_options_def)

end
